theory Spec2Isabelle
  imports Complex_Main "HOL-Library.Log_Nat"
begin

section \<open>JavaScript values used by the document validator\<close>

text \<open>
  The validator (class \<open>DocumentValidator\<close>) is JavaScript. A string is a \<^typ>\<open>string\<close>
  holding the UTF-8 bytes of the JavaScript string, so that every well-formed JavaScript
  string has exactly one representation and \<open>===\<close> on strings is equality of lists.
  A JavaScript number is an IEEE 754 double. Only its order, its truthiness and its
  equality are read by the validator, so a number is modelled by its exact value: a
  rational for a finite double (the two zeros are one value, they are equal and both
  falsy), the two infinities, and \<open>NaN\<close>.
\<close>

datatype jsnum = NaN | NegInf | Fin rat | PosInf

text \<open>The relational operator \<open>x < y\<close> on numbers: false as soon as an operand is \<open>NaN\<close>.\<close>

fun js_lt :: "jsnum \<Rightarrow> jsnum \<Rightarrow> bool" where
  "js_lt NaN y = False"
| "js_lt x NaN = False"
| "js_lt NegInf NegInf = False"
| "js_lt NegInf y = True"
| "js_lt (Fin a) (Fin b) = (a < b)"
| "js_lt (Fin a) PosInf = True"
| "js_lt x y = False"

text \<open>\<open>x > y\<close> is \<open>y < x\<close> with the operands evaluated in the other order.\<close>

definition js_gt :: "jsnum \<Rightarrow> jsnum \<Rightarrow> bool" where
  "js_gt x y = js_lt y x"

text \<open>\<open>x >= y\<close> is "not \<open>x < y\<close>", except that it is false when an operand is \<open>NaN\<close>.\<close>

definition js_ge :: "jsnum \<Rightarrow> jsnum \<Rightarrow> bool" where
  "js_ge x y = (x \<noteq> NaN \<and> y \<noteq> NaN \<and> \<not> js_lt x y)"

text \<open>Unary minus.\<close>

fun js_neg :: "jsnum \<Rightarrow> jsnum" where
  "js_neg NaN = NaN"
| "js_neg NegInf = PosInf"
| "js_neg (Fin a) = Fin (- a)"
| "js_neg PosInf = NegInf"

text \<open>\<open>x || 0\<close> on a number or \<open>undefined\<close> (\<open>None\<close>): the falsy values \<open>undefined\<close>,
  \<open>NaN\<close> and zero give \<open>0\<close>, every other number gives itself.\<close>

fun or_zero :: "jsnum option \<Rightarrow> jsnum" where
  "or_zero None = Fin 0"
| "or_zero (Some NaN) = Fin 0"
| "or_zero (Some x) = x"

subsection \<open>Rounding to a double\<close>

text \<open>
  The Number value for a non-negative rational \<open>a / b\<close>: the nearest double, ties to the
  even significand, \<open>Infinity\<close> from \<open>2^1024\<close> on. \<open>ilog2 a b\<close> is the exponent of
  \<open>a / b\<close> (the floor of its binary logarithm), found from the bit lengths of \<open>a\<close> and
  \<open>b\<close>; below \<open>2^-1022\<close> the spacing of the doubles stays \<open>2^-1074\<close>.
\<close>

definition pow2 :: "int \<Rightarrow> rat" where
  "pow2 e = (if 0 \<le> e then 2 ^ nat e else 1 / 2 ^ nat (- e))"

definition ilog2 :: "nat \<Rightarrow> nat \<Rightarrow> int" where
  "ilog2 a b = (let d = int (floorlog 2 a) - int (floorlog 2 b)
                in if pow2 d \<le> of_nat a / of_nat b then d else d - 1)"

definition round_double :: "nat \<Rightarrow> nat \<Rightarrow> jsnum" where
  "round_double a b =
     (if a = 0 then Fin 0
      else let q = of_nat a / of_nat b;
               e = max (ilog2 a b) (- 1022);
               u = pow2 (e - 52);
               n = \<lfloor>q / u\<rfloor>;
               r = q / u - of_int n;
               m = (if r < 1 / 2 then n else if 1 / 2 < r then n + 1
                    else if even n then n else n + 1);
               v = of_int m * u
           in if pow2 1024 \<le> v then PosInf else Fin v)"

text \<open>The Number value for an integer, as the result of an arithmetic operation.\<close>

definition round_int :: "int \<Rightarrow> jsnum" where
  "round_int i = (if 0 \<le> i then round_double (nat i) 1 else js_neg (round_double (nat (- i)) 1))"

subsection \<open>\<open>Number(string)\<close>\<close>

text \<open>
  \<open>Number\<close> applied to a string is the abstract operation StringToNumber of ECMAScript:
  white space and line terminators are stripped at both ends; the empty string is \<open>0\<close>;
  what remains is an optionally signed decimal literal (\<open>Infinity\<close>, or digits with an
  optional fraction and exponent) or an unsigned binary, octal or hexadecimal integer
  literal; anything else is \<open>NaN\<close>. The value is the literal's mathematical value rounded
  to a double. (For a decimal literal of more than 20 significant digits ECMAScript also
  allows the double of the literal cut after the 20th digit; the engines round the exact
  value, and so does this model.)
\<close>

text \<open>The white space and line terminator code points, in UTF-8: TAB, LF, VT, FF, CR, SP,
  U+00A0, U+1680, U+2000 to U+200A, U+2028, U+2029, U+202F, U+205F, U+3000, U+FEFF.\<close>

definition ws_units :: "string list" where
  "ws_units =
     [[CHR 0x09], [CHR 0x0A], [CHR 0x0B], [CHR 0x0C], [CHR 0x0D], [CHR 0x20],
      [CHR 0xC2, CHR 0xA0], [CHR 0xE1, CHR 0x9A, CHR 0x80],
      [CHR 0xE2, CHR 0x80, CHR 0x80], [CHR 0xE2, CHR 0x80, CHR 0x81],
      [CHR 0xE2, CHR 0x80, CHR 0x82], [CHR 0xE2, CHR 0x80, CHR 0x83],
      [CHR 0xE2, CHR 0x80, CHR 0x84], [CHR 0xE2, CHR 0x80, CHR 0x85],
      [CHR 0xE2, CHR 0x80, CHR 0x86], [CHR 0xE2, CHR 0x80, CHR 0x87],
      [CHR 0xE2, CHR 0x80, CHR 0x88], [CHR 0xE2, CHR 0x80, CHR 0x89],
      [CHR 0xE2, CHR 0x80, CHR 0x8A], [CHR 0xE2, CHR 0x80, CHR 0xA8],
      [CHR 0xE2, CHR 0x80, CHR 0xA9], [CHR 0xE2, CHR 0x80, CHR 0xAF],
      [CHR 0xE2, CHR 0x81, CHR 0x9F], [CHR 0xE3, CHR 0x80, CHR 0x80],
      [CHR 0xEF, CHR 0xBB, CHR 0xBF]]"

fun starts_with :: "string \<Rightarrow> string \<Rightarrow> bool" where
  "starts_with [] s = True"
| "starts_with (c # cs) [] = False"
| "starts_with (c # cs) (d # ds) = (c = d \<and> starts_with cs ds)"

text \<open>Dropping the leading units of \<open>us\<close> from a string, one character of fuel for each
  unit dropped (a unit is not empty, so the fuel \<open>length s\<close> is never used up).\<close>

fun drop_units :: "nat \<Rightarrow> string list \<Rightarrow> string \<Rightarrow> string" where
  "drop_units 0 us s = s"
| "drop_units (Suc k) us s =
     (case List.find (\<lambda>u. u \<noteq> [] \<and> starts_with u s) us of
        None \<Rightarrow> s
      | Some u \<Rightarrow> drop_units k us (drop (length u) s))"

definition trim_ws :: "string \<Rightarrow> string" where
  "trim_ws s =
     (let t = drop_units (length s) ws_units s
      in rev (drop_units (length t) (map rev ws_units) (rev t)))"

definition is_digit :: "char \<Rightarrow> bool" where
  "is_digit c = (c \<in> set ''0123456789'')"

definition is_hex_digit :: "char \<Rightarrow> bool" where
  "is_hex_digit c = (c \<in> set ''0123456789abcdefABCDEF'')"

definition digit_val :: "char \<Rightarrow> nat" where
  "digit_val c =
     (if is_digit c then of_char c - 48
      else if c \<in> set ''abcdef'' then of_char c - 87
      else of_char c - 55)"

text \<open>The value of a digit string in a base, most significant digit first.\<close>

definition digits_val :: "nat \<Rightarrow> string \<Rightarrow> nat" where
  "digits_val base s = foldl (\<lambda>n c. base * n + digit_val c) 0 s"

definition all_digits :: "string \<Rightarrow> bool" where
  "all_digits s = (s \<noteq> [] \<and> list_all is_digit s)"

text \<open>SignedInteger, the exponent after \<open>e\<close> or \<open>E\<close>.\<close>

definition signed_integer :: "string \<Rightarrow> int option" where
  "signed_integer s =
     (case s of
        [] \<Rightarrow> None
      | c # cs \<Rightarrow>
          if c = CHR ''+'' then (if all_digits cs then Some (int (digits_val 10 cs)) else None)
          else if c = CHR ''-'' then (if all_digits cs then Some (- int (digits_val 10 cs)) else None)
          else if all_digits s then Some (int (digits_val 10 s)) else None)"

text \<open>The double of \<open>m * 10^k\<close>.\<close>

definition round_scaled :: "nat \<Rightarrow> int \<Rightarrow> jsnum" where
  "round_scaled m k =
     (if 0 \<le> k then round_double (m * 10 ^ nat k) 1 else round_double m (10 ^ nat (- k)))"

text \<open>StrUnsignedDecimalLiteral: \<open>Infinity\<close>, \<open>digits\<close>, \<open>digits.\<close>, \<open>digits.digits\<close> or
  \<open>.digits\<close>, the last four with an optional exponent part.\<close>

definition unsigned_decimal :: "string \<Rightarrow> jsnum" where
  "unsigned_decimal s =
     (if s = ''Infinity'' then PosInf
      else let is_e = (\<lambda>c. c = CHR ''e'' \<or> c = CHR ''E'');
               m = takeWhile (\<lambda>c. \<not> is_e c) s;
               x = dropWhile (\<lambda>c. \<not> is_e c) s;
               ip = takeWhile (\<lambda>c. c \<noteq> CHR ''.'') m;
               dot = dropWhile (\<lambda>c. c \<noteq> CHR ''.'') m;
               fp = tl dot;
               mant_ok = (list_all is_digit ip \<and> list_all is_digit fp \<and>
                          (if dot = [] then ip \<noteq> [] else ip \<noteq> [] \<or> fp \<noteq> []));
               ex = (if x = [] then Some 0 else signed_integer (tl x))
           in if mant_ok
              then (case ex of
                      None \<Rightarrow> NaN
                    | Some k \<Rightarrow> round_scaled (digits_val 10 (ip @ fp)) (k - int (length fp)))
              else NaN)"

text \<open>NonDecimalIntegerLiteral: \<open>0b\<close>, \<open>0o\<close> or \<open>0x\<close> (either case) and digits of the base.\<close>

definition non_decimal :: "string \<Rightarrow> jsnum option" where
  "non_decimal s =
     (case s of
        c # d # ds \<Rightarrow>
          if c = CHR ''0'' \<and> ds \<noteq> [] then
            (if d \<in> set ''bB'' \<and> list_all (\<lambda>h. h \<in> set ''01'') ds
               then Some (round_double (digits_val 2 ds) 1)
             else if d \<in> set ''oO'' \<and> list_all (\<lambda>h. h \<in> set ''01234567'') ds
               then Some (round_double (digits_val 8 ds) 1)
             else if d \<in> set ''xX'' \<and> list_all is_hex_digit ds
               then Some (round_double (digits_val 16 ds) 1)
             else None)
          else None
      | _ \<Rightarrow> None)"

definition Number :: "string \<Rightarrow> jsnum" where
  "Number s =
     (let t = trim_ws s
      in if t = [] then Fin 0
         else case non_decimal t of
                Some v \<Rightarrow> v
              | None \<Rightarrow>
                  (case t of
                     c # cs \<Rightarrow>
                       if c = CHR ''+'' then unsigned_decimal cs
                       else if c = CHR ''-'' then js_neg (unsigned_decimal cs)
                       else unsigned_decimal t
                   | [] \<Rightarrow> Fin 0))"

section \<open>The version comparator\<close>

text \<open>\<open>version.split('.')\<close>: the segments between the dots; the empty string has one
  empty segment.\<close>

fun split_dot :: "string \<Rightarrow> string list" where
  "split_dot [] = [[]]"
| "split_dot (c # cs) =
     (if c = CHR ''.'' then [] # split_dot cs
      else (case split_dot cs of
              w # ws \<Rightarrow> (c # w) # ws
            | [] \<Rightarrow> [[c]]))"

text \<open>\<open>parts[i]\<close>: \<open>undefined\<close> beyond the end of the array.\<close>

definition at_index :: "'a list \<Rightarrow> nat \<Rightarrow> 'a option" where
  "at_index xs i = (if i < length xs then Some (xs ! i) else None)"

text \<open>The \<open>for\<close> loop of \<open>compareVersions\<close>, from index \<open>i\<close> on.\<close>

function compare_from :: "jsnum list \<Rightarrow> jsnum list \<Rightarrow> nat \<Rightarrow> nat \<Rightarrow> int" where
  "compare_from v1Parts v2Parts maxLength i =
     (if i < maxLength then
        (let v1Part = or_zero (at_index v1Parts i);
             v2Part = or_zero (at_index v2Parts i)
         in if js_lt v1Part v2Part then - 1
            else if js_gt v1Part v2Part then 1
            else compare_from v1Parts v2Parts maxLength (i + 1))
      else 0)"
  by pat_completeness auto
termination
  by (relation "measure (\<lambda>(v1, v2, n, i). n - i)") auto

declare compare_from.simps [simp del]

definition compareVersions :: "string \<Rightarrow> string \<Rightarrow> int" where
  "compareVersions version1 version2 =
     (let v1Parts = map Number (split_dot version1);
          v2Parts = map Number (split_dot version2);
          maxLength = max (length v1Parts) (length v2Parts)
      in compare_from v1Parts v2Parts maxLength 0)"

text \<open>The value compared at index \<open>i\<close> of a version: \<open>parts[i] || 0\<close>.\<close>

definition segment :: "string \<Rightarrow> nat \<Rightarrow> jsnum" where
  "segment v i = or_zero (at_index (map Number (split_dot v)) i)"

section \<open>Document records and the date parser\<close>

text \<open>
  An entry of \<open>documents.json\<close>. The resolver reads the first four properties; the
  other three are only displayed, and a property that is absent is \<open>None\<close>.
\<close>

record document =
  documentId :: string
  validationId :: string
  version :: string
  date :: string
  documentName :: "string option"
  url :: "string option"
  contact :: "string option"

text \<open>
  \<open>new Date(s)\<close> for a string \<open>s\<close> holds the time value \<open>Date.parse(s)\<close>: an integral
  number of milliseconds, or \<open>NaN\<close> for an invalid date (\<open>None\<close>). ECMAScript fixes
  \<open>Date.parse\<close> on the ISO format only and leaves every other string to the engine, so
  the parser is a parameter \<open>tv\<close> of the functions that read a date.
\<close>

type_synonym date_parser = "string \<Rightarrow> int option"

text \<open>The time value as a number, as the operators \<open>-\<close> and \<open>>=\<close> read a \<open>Date\<close>.\<close>

fun time_number :: "int option \<Rightarrow> jsnum" where
  "time_number None = NaN"
| "time_number (Some t) = Fin (of_int t)"

text \<open>\<open>new Date(x) - new Date(y)\<close>: \<open>NaN\<close> if a date is invalid, else the difference of
  the time values, rounded as every arithmetic result.\<close>

fun date_minus :: "int option \<Rightarrow> int option \<Rightarrow> jsnum" where
  "date_minus (Some x) (Some y) = round_int (x - y)"
| "date_minus x y = NaN"

text \<open>
  A date parser for the examples: the date-only ISO form \<open>YYYY-MM-DD\<close> is midnight UTC
  of that day, and every other string is an invalid date (an engine may accept more).
\<close>

definition days_from_civil :: "int \<Rightarrow> int \<Rightarrow> int \<Rightarrow> int" where
  "days_from_civil y m d =
     (let y' = (if m \<le> 2 then y - 1 else y);
          era = y' div 400;
          yoe = y' - era * 400;
          mp = (if 2 < m then m - 3 else m + 9);
          doy = (153 * mp + 2) div 5 + d - 1;
          doe = yoe * 365 + yoe div 4 - yoe div 100 + doy
      in era * 146097 + doe - 719468)"

definition days_in_month :: "int \<Rightarrow> int \<Rightarrow> int" where
  "days_in_month y m =
     (if m = 2 then (if y mod 4 = 0 \<and> (y mod 100 \<noteq> 0 \<or> y mod 400 = 0) then 29 else 28)
      else if m = 4 \<or> m = 6 \<or> m = 9 \<or> m = 11 then 30 else 31)"

definition iso_date :: date_parser where
  "iso_date s =
     (if length s = 10 \<and> s ! 4 = CHR ''-'' \<and> s ! 7 = CHR ''-'' \<and>
         list_all is_digit (take 4 s) \<and> list_all is_digit (take 2 (drop 5 s)) \<and>
         list_all is_digit (drop 8 s)
      then (let y = int (digits_val 10 (take 4 s));
                m = int (digits_val 10 (take 2 (drop 5 s)));
                d = int (digits_val 10 (drop 8 s))
            in if 1 \<le> m \<and> m \<le> 12 \<and> 1 \<le> d \<and> d \<le> days_in_month y m
               then Some (days_from_civil y m d * 86400000) else None)
      else None)"

section \<open>The resolver\<close>

text \<open>\<open>findDocumentByValidationId\<close>: \<open>this.documents.find(...) || null\<close>. The argument is
  a string or \<open>null\<close> (\<open>None\<close>); \<open>===\<close> between a string and \<open>null\<close> is false. A record
  is an object, so the result of \<open>find\<close> is falsy only when nothing was found.\<close>

definition findDocumentByValidationId :: "document list \<Rightarrow> string option \<Rightarrow> document option" where
  "findDocumentByValidationId docs vid = List.find (\<lambda>doc. Some (validationId doc) = vid) docs"

text \<open>The comparator handed to \<open>sort\<close> in \<open>getLatestDocumentVersion\<close>.\<close>

definition compare_documents :: "date_parser \<Rightarrow> document \<Rightarrow> document \<Rightarrow> jsnum" where
  "compare_documents tv a b =
     (let versionCompare = compareVersions (version a) (version b)
      in if versionCompare \<noteq> 0 then Fin (of_int (- versionCompare))
         else date_minus (tv (date b)) (tv (date a)))"

text \<open>
  \<open>Array.prototype.sort\<close> with a comparator \<open>cmp\<close>: \<open>cmp a b > 0\<close> puts \<open>b\<close> first, a
  negative result puts \<open>a\<close> first, and \<open>0\<close> or \<open>NaN\<close> keeps the two in their order
  (the sort is stable). \<open>js_sort\<close> is the stable insertion sort: for a consistent
  comparator it is the list that every such sort returns. Where the comparator is not
  consistent the order is the engine's own, see \<open>engine_sort\<close> below.
\<close>

fun insert_sorted :: "('a \<Rightarrow> 'a \<Rightarrow> jsnum) \<Rightarrow> 'a \<Rightarrow> 'a list \<Rightarrow> 'a list" where
  "insert_sorted cmp x [] = [x]"
| "insert_sorted cmp x (y # ys) =
     (if js_gt (cmp x y) (Fin 0) then y # insert_sorted cmp x ys else x # y # ys)"

definition js_sort :: "('a \<Rightarrow> 'a \<Rightarrow> jsnum) \<Rightarrow> 'a list \<Rightarrow> 'a list" where
  "js_sort cmp xs = foldr (insert_sorted cmp) xs []"

text \<open>\<open>filter\<close> builds a new array, which \<open>sort\<close> then orders in place: \<open>this.documents\<close>
  is only read.\<close>

definition getLatestDocumentVersion :: "date_parser \<Rightarrow> document list \<Rightarrow> string \<Rightarrow> document option" where
  "getLatestDocumentVersion tv docs docId =
     (let documentVersions =
            js_sort (compare_documents tv) (filter (\<lambda>doc. documentId doc = docId) docs)
      in if 0 < length documentVersions then Some (documentVersions ! 0) else None)"

text \<open>
  The same function with its arrays in a store, a list of arrays addressed by position:
  \<open>filter\<close> allocates a new array and returns its address, \<open>sort\<close> orders the array at an
  address in place and returns that address. \<open>this.documents\<close> is the array at
  \<open>documents_at\<close>.
\<close>

type_synonym heap = "document list list"

definition array_filter :: "(document \<Rightarrow> bool) \<Rightarrow> nat \<Rightarrow> heap \<Rightarrow> nat \<times> heap" where
  "array_filter p a h = (length h, h @ [filter p (h ! a)])"

definition array_sort :: "(document \<Rightarrow> document \<Rightarrow> jsnum) \<Rightarrow> nat \<Rightarrow> heap \<Rightarrow> nat \<times> heap" where
  "array_sort cmp a h = (a, h[a := js_sort cmp (h ! a)])"

definition getLatestDocumentVersion_heap ::
  "date_parser \<Rightarrow> nat \<Rightarrow> string \<Rightarrow> heap \<Rightarrow> document option \<times> heap" where
  "getLatestDocumentVersion_heap tv documents_at docId h =
     (let (filtered, h1) = array_filter (\<lambda>doc. documentId doc = docId) documents_at h;
          (documentVersions, h2) = array_sort (compare_documents tv) filtered h1
      in (if 0 < length (h2 ! documentVersions) then Some (h2 ! documentVersions ! 0) else None,
          h2))"

definition isLatestVersion :: "date_parser \<Rightarrow> document list \<Rightarrow> document \<Rightarrow> bool" where
  "isLatestVersion tv docs doc =
     (case getLatestDocumentVersion tv docs (documentId doc) of
        None \<Rightarrow> False
      | Some latest \<Rightarrow>
          (let versionCompare = compareVersions (version doc) (version latest)
           in if versionCompare \<noteq> 0 then 0 < versionCompare
              else js_ge (time_number (tv (date doc))) (time_number (tv (date latest)))))"

section \<open>The sort of the engine\<close>

text \<open>
  ECMAScript requires of \<open>sort\<close> that the array keeps its elements and that, with a
  consistent comparator, it comes out ordered by the comparator; it is then ordered by every
  total preorder whose strict pairs the comparator decides. With a comparator that is not
  consistent the order is left to the engine. \<open>compare_documents\<close> is not consistent when
  records of equal version have different dates and one that cannot be parsed, whose
  difference with any date is \<open>NaN\<close>, read as \<open>0\<close>. There the result of an engine can
  differ from \<open>js_sort\<close>, as that of V8 does on \<open>record_R0\<close> to \<open>record_R3\<close> below, so what
  the resolver needs of the order is stated for an arbitrary sort function \<open>srt\<close> with the
  property \<open>engine_sort\<close>: the elements are kept, and the result is ordered by every total
  preorder whose strict pairs the comparator decides, consistent or not. The property is
  proved below of \<open>js_sort\<close> and of the binary insertion sort of V8.
\<close>

text \<open>A total preorder on the elements of an array (total, hence reflexive, and transitive).\<close>

definition total_preorder_on :: "'a set \<Rightarrow> ('a \<Rightarrow> 'a \<Rightarrow> bool) \<Rightarrow> bool" where
  "total_preorder_on A R \<longleftrightarrow>
     (\<forall>x\<in>A. \<forall>y\<in>A. R x y \<or> R y x) \<and>
     (\<forall>x\<in>A. \<forall>y\<in>A. \<forall>z\<in>A. R x y \<and> R y z \<longrightarrow> R x z)"

text \<open>The comparator decides \<open>R\<close>: when \<open>x\<close> is strictly before \<open>y\<close> in \<open>R\<close>, it says so
  whichever way round it is asked.\<close>

definition decides :: "('a \<Rightarrow> 'a \<Rightarrow> jsnum) \<Rightarrow> 'a set \<Rightarrow> ('a \<Rightarrow> 'a \<Rightarrow> bool) \<Rightarrow> bool" where
  "decides cmp A R \<longleftrightarrow>
     (\<forall>x\<in>A. \<forall>y\<in>A. \<not> R y x \<longrightarrow> js_lt (cmp x y) (Fin 0) \<and> js_gt (cmp y x) (Fin 0))"

text \<open>The property of the engine's sort.\<close>

definition engine_sort :: "(('a \<Rightarrow> 'a \<Rightarrow> jsnum) \<Rightarrow> 'a list \<Rightarrow> 'a list) \<Rightarrow> bool" where
  "engine_sort srt \<longleftrightarrow>
     (\<forall>cmp xs. set (srt cmp xs) = set xs \<and>
        (\<forall>R. total_preorder_on (set xs) R \<and> decides cmp (set xs) R \<longrightarrow> sorted_wrt R (srt cmp xs)))"

text \<open>\<open>getLatestDocumentVersion\<close> and \<open>isLatestVersion\<close> on an engine whose sort is \<open>srt\<close>;
  with \<open>js_sort\<close> they are the two functions above.\<close>

definition getLatestDocumentVersion_by ::
  "((document \<Rightarrow> document \<Rightarrow> jsnum) \<Rightarrow> document list \<Rightarrow> document list) \<Rightarrow>
   date_parser \<Rightarrow> document list \<Rightarrow> string \<Rightarrow> document option" where
  "getLatestDocumentVersion_by srt tv docs docId =
     (let documentVersions =
            srt (compare_documents tv) (filter (\<lambda>doc. documentId doc = docId) docs)
      in if 0 < length documentVersions then Some (documentVersions ! 0) else None)"

definition isLatestVersion_by ::
  "((document \<Rightarrow> document \<Rightarrow> jsnum) \<Rightarrow> document list \<Rightarrow> document list) \<Rightarrow>
   date_parser \<Rightarrow> document list \<Rightarrow> document \<Rightarrow> bool" where
  "isLatestVersion_by srt tv docs doc =
     (case getLatestDocumentVersion_by srt tv docs (documentId doc) of
        None \<Rightarrow> False
      | Some latest \<Rightarrow>
          (let versionCompare = compareVersions (version doc) (version latest)
           in if versionCompare \<noteq> 0 then 0 < versionCompare
              else js_ge (time_number (tv (date doc))) (time_number (tv (date latest)))))"

text \<open>
  The sort of V8 (\<open>third_party/v8/builtins/array-sort.tq\<close>) on an array of fewer than 64
  elements: in \<open>ArrayTimSortImpl\<close> the minimal run length is then the length of the array,
  so the first run is extended to the whole array and nothing is merged. \<open>CountAndMakeRun\<close> takes the longest run at the
  start of the array that is ascending, or strictly descending and then reversed:
  \<open>take_run\<close> is its loop, from the third element on. \<open>BinaryInsertionSort\<close> inserts each
  of the other elements into the sorted part, at the place \<open>find_insertion_point\<close> finds by
  bisection. Every comparison is \<open>cmp\<close> with \<open>NaN\<close> read as \<open>0\<close>.
\<close>

fun take_run :: "('a \<Rightarrow> 'a \<Rightarrow> jsnum) \<Rightarrow> bool \<Rightarrow> 'a \<Rightarrow> 'a list \<Rightarrow> 'a list \<times> 'a list" where
  "take_run cmp isDescending previousElement [] = ([], [])"
| "take_run cmp isDescending previousElement (currentElement # rest) =
     (if js_lt (cmp currentElement previousElement) (Fin 0) = isDescending
      then (let (run, after) = take_run cmp isDescending currentElement rest
            in (currentElement # run, after))
      else ([], currentElement # rest))"

function find_insertion_point :: "('a \<Rightarrow> 'a \<Rightarrow> jsnum) \<Rightarrow> 'a \<Rightarrow> 'a list \<Rightarrow> nat \<Rightarrow> nat \<Rightarrow> nat" where
  "find_insertion_point cmp pivot work left right =
     (if left < right then
        (let mid = left + (right - left) div 2
         in if js_lt (cmp pivot (work ! mid)) (Fin 0)
            then find_insertion_point cmp pivot work left mid
            else find_insertion_point cmp pivot work (mid + 1) right)
      else left)"
  by pat_completeness auto
termination
  by (relation "measure (\<lambda>(cmp, pivot, work, left, right). right - left)") auto

declare find_insertion_point.simps [simp del]

definition binary_insert :: "('a \<Rightarrow> 'a \<Rightarrow> jsnum) \<Rightarrow> 'a list \<Rightarrow> 'a \<Rightarrow> 'a list" where
  "binary_insert cmp work pivot =
     (let left = find_insertion_point cmp pivot work 0 (length work)
      in take left work @ pivot # drop left work)"

definition binary_insertion_sort :: "('a \<Rightarrow> 'a \<Rightarrow> jsnum) \<Rightarrow> 'a list \<Rightarrow> 'a list" where
  "binary_insertion_sort cmp xs =
     (case xs of
        elementHigh # elementLow # rest \<Rightarrow>
          (let isDescending = js_lt (cmp elementLow elementHigh) (Fin 0);
               (run, after) = take_run cmp isDescending elementLow rest;
               first = elementHigh # elementLow # run
           in foldl (binary_insert cmp) (if isDescending then rev first else first) after)
      | _ \<Rightarrow> xs)"

section \<open>The resolution flow\<close>

text \<open>
  The fields of a \<open>DocumentValidator\<close> object (\<open>this.validationId\<close> is \<open>queryId\<close> here,
  the record \<open>document\<close> has a field of that name): the loaded records, the \<open>id\<close> query
  parameter (\<open>null\<close> when it is absent or empty, see \<open>getValidationIdFromUrl\<close>) and the
  record found.
\<close>

record validator =
  documents :: "document list"
  queryId :: "string option"
  currentDocument :: "document option"

text \<open>\<open>urlParams.get('id') || null\<close>: the empty string is falsy.\<close>

definition getValidationIdFromUrl :: "string option \<Rightarrow> string option" where
  "getValidationIdFromUrl param = (case param of None \<Rightarrow> None | Some s \<Rightarrow> if s = [] then None else Some s)"

text \<open>
  What \<open>validateDocument\<close> displays: \<open>NoId\<close> and \<open>NotFound\<close> are the two calls of
  \<open>showGrayState\<close>, \<open>Latest\<close> is \<open>showValidState\<close> (it displays \<open>this.currentDocument\<close>) and
  \<open>Outdated\<close> is \<open>showInvalidState(latestDocument)\<close> (it displays both records).
  \<open>showInvalidState\<close> reads \<open>latestDocument.validationId\<close>, which throws a
  \<open>TypeError\<close> when \<open>latestDocument\<close> is \<open>null\<close>.
\<close>

datatype terminal = NoId | NotFound | Latest document | Outdated document document

datatype error = TypeError

definition validateDocument :: "date_parser \<Rightarrow> validator \<Rightarrow> (error + terminal) \<times> validator" where
  "validateDocument tv this =
     (case queryId this of
        None \<Rightarrow> (Inr NoId, this)
      | Some vid \<Rightarrow>
          if vid = [] then (Inr NoId, this)
          else
            (let this' = this\<lparr>currentDocument := findDocumentByValidationId (documents this) (Some vid)\<rparr>
             in case currentDocument this' of
                  None \<Rightarrow> (Inr NotFound, this')
                | Some cur \<Rightarrow>
                    if isLatestVersion tv (documents this') cur then (Inr (Latest cur), this')
                    else (case getLatestDocumentVersion tv (documents this') (documentId cur) of
                            None \<Rightarrow> (Inl TypeError, this')
                          | Some latestDocument \<Rightarrow> (Inr (Outdated cur latestDocument), this'))))"

section \<open>The comparator as the specification words it\<close>

text \<open>
  The specification's comparator: each segment is parsed as an integer, a segment that is
  not a string of decimal digits is \<open>0\<close>, the shorter sequence is padded with zeros to the
  length of the longer, and the result is the sign of the first unequal pair.
\<close>

definition spec_segment :: "string \<Rightarrow> int" where
  "spec_segment s = (if all_digits s then int (digits_val 10 s) else 0)"

definition spec_pad :: "nat \<Rightarrow> int list \<Rightarrow> int list" where
  "spec_pad n xs = xs @ replicate (n - length xs) 0"

fun spec_first_unequal :: "int list \<Rightarrow> int list \<Rightarrow> int" where
  "spec_first_unequal (x # xs) (y # ys) =
     (if x < y then - 1 else if y < x then 1 else spec_first_unequal xs ys)"
| "spec_first_unequal xs ys = 0"

definition spec_compareVersions :: "string \<Rightarrow> string \<Rightarrow> int" where
  "spec_compareVersions a b =
     (let xs = map spec_segment (split_dot a);
          ys = map spec_segment (split_dot b);
          n = max (length xs) (length ys)
      in spec_first_unequal (spec_pad n xs) (spec_pad n ys))"

section \<open>The records of the examples\<close>

text \<open>
  \<open>record_A\<close> and \<open>record_B\<close> are the two records of the specification's end-to-end
  example. \<open>record_C\<close> ties with \<open>record_A\<close> on the version and has the later date;
  \<open>record_D\<close> has a greater version than both and the earliest date;
  \<open>record_blank\<close> has the empty validation id. \<open>record_M\<close> has the greatest version and a
  date that cannot be parsed. \<open>record_R0\<close> to \<open>record_R3\<close> are a lineage of one version in
  which \<open>record_R2\<close> has such a date.
\<close>

definition record_A :: document where
  "record_A = \<lparr>documentId = ''D1'', validationId = ''A'', version = ''1.0.0'',
     date = ''2024-01-01'', documentName = None, url = None, contact = None\<rparr>"

definition record_B :: document where
  "record_B = \<lparr>documentId = ''D1'', validationId = ''B'', version = ''2.0.0'',
     date = ''2024-02-01'', documentName = None, url = None, contact = None\<rparr>"

definition record_C :: document where
  "record_C = \<lparr>documentId = ''D1'', validationId = ''C'', version = ''1.0'',
     date = ''2024-02-01'', documentName = None, url = None, contact = None\<rparr>"

definition record_D :: document where
  "record_D = \<lparr>documentId = ''D1'', validationId = ''D'', version = ''2.0.0'',
     date = ''2023-12-01'', documentName = None, url = None, contact = None\<rparr>"

definition record_blank :: document where
  "record_blank = \<lparr>documentId = ''D2'', validationId = [], version = ''1.0.0'',
     date = ''2024-01-01'', documentName = None, url = None, contact = None\<rparr>"

definition record_M :: document where
  "record_M = \<lparr>documentId = ''D1'', validationId = ''M'', version = ''2.0.0'',
     date = ''bad'', documentName = None, url = None, contact = None\<rparr>"

definition record_R0 :: document where
  "record_R0 = \<lparr>documentId = ''D3'', validationId = ''R0'', version = ''1.0.0'',
     date = ''2024-01-01'', documentName = None, url = None, contact = None\<rparr>"

definition record_R1 :: document where
  "record_R1 = \<lparr>documentId = ''D3'', validationId = ''R1'', version = ''1.0.0'',
     date = ''2024-02-01'', documentName = None, url = None, contact = None\<rparr>"

definition record_R2 :: document where
  "record_R2 = \<lparr>documentId = ''D3'', validationId = ''R2'', version = ''1.0.0'',
     date = ''bad'', documentName = None, url = None, contact = None\<rparr>"

definition record_R3 :: document where
  "record_R3 = \<lparr>documentId = ''D3'', validationId = ''R3'', version = ''1.0.0'',
     date = ''2024-03-01'', documentName = None, url = None, contact = None\<rparr>"

section \<open>Order of the numbers and the comparator loop\<close>

lemma js_lt_irrefl: "\<not> js_lt x x"
  by (cases x) auto

lemma js_lt_trans: "js_lt x y \<Longrightarrow> js_lt y z \<Longrightarrow> js_lt x z"
  by (cases x; cases y; cases z) auto

lemma js_lt_asym: "js_lt x y \<Longrightarrow> \<not> js_lt y x"
  by (cases x; cases y) auto

lemma js_lt_total: "x \<noteq> NaN \<Longrightarrow> y \<noteq> NaN \<Longrightarrow> js_lt x y \<or> x = y \<or> js_lt y x"
  by (cases x; cases y) auto

lemma or_zero_not_NaN: "or_zero x \<noteq> NaN"
  by (cases x rule: or_zero.cases) auto

lemma segment_not_NaN: "segment v i \<noteq> NaN"
  by (simp add: segment_def or_zero_not_NaN)

lemma segment_beyond: "length (split_dot v) \<le> i \<Longrightarrow> segment v i = Fin 0"
  by (simp add: segment_def at_index_def)

lemma segment_cases: "js_lt (segment a i) (segment b i) \<or> segment a i = segment b i \<or> js_lt (segment b i) (segment a i)"
  using js_lt_total segment_not_NaN by blast

text \<open>The loop, by the first index at which the two values differ.\<close>

lemma compare_from_range: "compare_from v1 v2 n i \<in> {- 1, 0, 1}"
proof (induction v1 v2 n i rule: compare_from.induct)
  case (1 v1 v2 n i)
  then show ?case
    by (subst compare_from.simps) (auto simp: Let_def)
qed


lemma compare_from_done: "\<not> i < n \<Longrightarrow> compare_from v1 v2 n i = 0"
  by (subst compare_from.simps) simp

lemma compare_from_step:
  "i < n \<Longrightarrow> compare_from v1 v2 n i =
     (if js_lt (or_zero (at_index v1 i)) (or_zero (at_index v2 i)) then - 1
      else if js_lt (or_zero (at_index v2 i)) (or_zero (at_index v1 i)) then 1
      else compare_from v1 v2 n (Suc i))"
  by (subst compare_from.simps) (simp add: Let_def js_gt_def)

lemma or_zero_eq_iff:
  "or_zero x = or_zero y \<longleftrightarrow> \<not> js_lt (or_zero x) (or_zero y) \<and> \<not> js_lt (or_zero y) (or_zero x)"
  using js_lt_total [OF or_zero_not_NaN or_zero_not_NaN, of x y] js_lt_irrefl [of "or_zero y"]
  by auto

lemma all_from_Suc: "(\<forall>k. i \<le> k \<and> k < n \<longrightarrow> P k) \<longleftrightarrow> (i < n \<longrightarrow> P i) \<and> (\<forall>k. Suc i \<le> k \<and> k < n \<longrightarrow> P k)"
proof -
  have eq: "\<And>k. (i \<le> k \<and> k < n) = ((k = i \<and> i < n) \<or> (Suc i \<le> k \<and> k < n))"
    by auto
  show ?thesis unfolding eq by blast
qed

lemma compare_from_zero:
  "compare_from v1 v2 n i = 0 \<longleftrightarrow>
     (\<forall>k. i \<le> k \<and> k < n \<longrightarrow> or_zero (at_index v1 k) = or_zero (at_index v2 k))"
proof (induction v1 v2 n i rule: compare_from.induct)
  case (1 v1 v2 n i)
  show ?case
  proof (cases "i < n")
    case False
    then show ?thesis by (auto simp: compare_from_done)
  next
    case True
    show ?thesis
    proof (cases "or_zero (at_index v1 i) = or_zero (at_index v2 i)")
      case False
      then show ?thesis
        using True by (subst all_from_Suc) (auto simp: compare_from_step or_zero_eq_iff)
    next
      case eq: True
      then have nlt: "\<not> js_lt (or_zero (at_index v1 i)) (or_zero (at_index v2 i))"
         "\<not> js_gt (or_zero (at_index v1 i)) (or_zero (at_index v2 i))"
        by (simp_all add: js_lt_irrefl js_gt_def)
      from "1.IH" [OF True refl refl nlt] show ?thesis
        using True eq by (subst all_from_Suc) (simp add: compare_from_step js_lt_irrefl)
    qed
  qed
qed

lemma ex_from_Suc:
  "(\<exists>k. i \<le> k \<and> k < n \<and> P k \<and> (\<forall>j. i \<le> j \<and> j < k \<longrightarrow> Q j)) \<longleftrightarrow>
   (i < n \<and> P i) \<or> (Q i \<and> (\<exists>k. Suc i \<le> k \<and> k < n \<and> P k \<and> (\<forall>j. Suc i \<le> j \<and> j < k \<longrightarrow> Q j)))"
  (is "?L \<longleftrightarrow> ?R")
proof
  assume ?L
  then obtain k where k: "i \<le> k" "k < n" "P k" "\<forall>j. i \<le> j \<and> j < k \<longrightarrow> Q j" by blast
  show ?R
  proof (cases "k = i")
    case True
    with k show ?thesis by simp
  next
    case False
    with k have "Suc i \<le> k" "Q i" by auto
    with k show ?thesis by auto
  qed
next
  assume ?R
  then show ?L
  proof
    assume "i < n \<and> P i"
    then show ?L by (intro exI [of _ i]) auto
  next
    assume "Q i \<and> (\<exists>k. Suc i \<le> k \<and> k < n \<and> P k \<and> (\<forall>j. Suc i \<le> j \<and> j < k \<longrightarrow> Q j))"
    then obtain k where k: "Q i" "Suc i \<le> k" "k < n" "P k" "\<forall>j. Suc i \<le> j \<and> j < k \<longrightarrow> Q j"
      by blast
    have "\<forall>j. i \<le> j \<and> j < k \<longrightarrow> Q j"
    proof (intro allI impI)
      fix j assume "i \<le> j \<and> j < k"
      then show "Q j" using k by (cases "j = i") auto
    qed
    with k show ?L by (intro exI [of _ k]) auto
  qed
qed

lemma compare_from_less:
  "compare_from v1 v2 n i = - 1 \<longleftrightarrow>
     (\<exists>k. i \<le> k \<and> k < n \<and> js_lt (or_zero (at_index v1 k)) (or_zero (at_index v2 k)) \<and>
          (\<forall>j. i \<le> j \<and> j < k \<longrightarrow> or_zero (at_index v1 j) = or_zero (at_index v2 j)))"
proof (induction v1 v2 n i rule: compare_from.induct)
  case (1 v1 v2 n i)
  let ?p = "or_zero (at_index v1 i)" and ?q = "or_zero (at_index v2 i)"
  show ?case
  proof (cases "i < n")
    case False
    then show ?thesis by (auto simp: compare_from_done)
  next
    case True
    consider "js_lt ?p ?q" | "js_lt ?q ?p" | "?p = ?q"
      using js_lt_total [OF or_zero_not_NaN or_zero_not_NaN] by blast
    then show ?thesis
    proof cases
      case 1
      then show ?thesis using True by (subst ex_from_Suc) (simp add: compare_from_step)
    next
      case 2
      then have "\<not> js_lt ?p ?q" "?p \<noteq> ?q" using js_lt_asym js_lt_irrefl by auto
      then show ?thesis using True 2 by (subst ex_from_Suc) (simp add: compare_from_step)
    next
      case 3
      then have nlt: "\<not> js_lt ?p ?q" "\<not> js_gt ?p ?q"
        by (simp_all add: js_lt_irrefl js_gt_def)
      from "1.IH" [OF True refl refl nlt] show ?thesis
        using True 3 by (subst ex_from_Suc) (simp add: compare_from_step js_lt_irrefl)
    qed
  qed
qed

lemma compare_from_greater:
  "compare_from v1 v2 n i = 1 \<longleftrightarrow>
     (\<exists>k. i \<le> k \<and> k < n \<and> js_lt (or_zero (at_index v2 k)) (or_zero (at_index v1 k)) \<and>
          (\<forall>j. i \<le> j \<and> j < k \<longrightarrow> or_zero (at_index v1 j) = or_zero (at_index v2 j)))"
proof (induction v1 v2 n i rule: compare_from.induct)
  case (1 v1 v2 n i)
  let ?p = "or_zero (at_index v1 i)" and ?q = "or_zero (at_index v2 i)"
  show ?case
  proof (cases "i < n")
    case False
    then show ?thesis by (auto simp: compare_from_done)
  next
    case True
    consider "js_lt ?p ?q" | "js_lt ?q ?p" | "?p = ?q"
      using js_lt_total [OF or_zero_not_NaN or_zero_not_NaN] by blast
    then show ?thesis
    proof cases
      case 1
      then have "\<not> js_lt ?q ?p" "?p \<noteq> ?q" using js_lt_asym js_lt_irrefl by auto
      then show ?thesis using True 1 by (subst ex_from_Suc) (simp add: compare_from_step)
    next
      case 2
      then have "\<not> js_lt ?p ?q" using js_lt_asym by auto
      then show ?thesis using True 2 by (subst ex_from_Suc) (simp add: compare_from_step)
    next
      case 3
      then have nlt: "\<not> js_lt ?p ?q" "\<not> js_gt ?p ?q"
        by (simp_all add: js_lt_irrefl js_gt_def)
      from "1.IH" [OF True refl refl nlt] show ?thesis
        using True 3 by (subst ex_from_Suc) (simp add: compare_from_step js_lt_irrefl)
    qed
  qed
qed

text \<open>\<open>compareVersions\<close> in terms of the compared values: beyond the longer array both are \<open>0\<close>.\<close>

lemma segment_at: "or_zero (at_index (map Number (split_dot v)) k) = segment v k"
  by (simp add: segment_def)

lemma compareVersions_zero:
  "compareVersions a b = 0 \<longleftrightarrow> (\<forall>k. segment a k = segment b k)"
proof -
  let ?n = "max (length (split_dot a)) (length (split_dot b))"
  have "(\<forall>k. k < ?n \<longrightarrow> segment a k = segment b k) \<longleftrightarrow> (\<forall>k. segment a k = segment b k)"
  proof
    assume h: "\<forall>k. k < ?n \<longrightarrow> segment a k = segment b k"
    show "\<forall>k. segment a k = segment b k"
    proof
      fix k show "segment a k = segment b k"
      proof (cases "k < ?n")
        case True then show ?thesis using h by blast
      next
        case False then show ?thesis by (simp add: segment_beyond)
      qed
    qed
  qed simp
  then show ?thesis
    by (simp add: compareVersions_def Let_def compare_from_zero segment_at)
qed

lemma compareVersions_less:
  "compareVersions a b = - 1 \<longleftrightarrow>
     (\<exists>k. js_lt (segment a k) (segment b k) \<and> (\<forall>j<k. segment a j = segment b j))"
proof -
  let ?n = "max (length (split_dot a)) (length (split_dot b))"
  have "(\<exists>k. k < ?n \<and> js_lt (segment a k) (segment b k) \<and> (\<forall>j. j < k \<longrightarrow> segment a j = segment b j))
     \<longleftrightarrow> (\<exists>k. js_lt (segment a k) (segment b k) \<and> (\<forall>j<k. segment a j = segment b j))"
    (is "?L \<longleftrightarrow> ?R")
  proof
    assume ?R
    then obtain k where k: "js_lt (segment a k) (segment b k)" "\<forall>j<k. segment a j = segment b j"
      by blast
    have "k < ?n"
    proof (rule ccontr)
      assume "\<not> k < ?n"
      then have "segment a k = Fin 0" "segment b k = Fin 0" by (simp_all add: segment_beyond)
      with k show False by simp
    qed
    with k show ?L by blast
  qed blast
  then show ?thesis
    by (simp add: compareVersions_def Let_def compare_from_less segment_at)
qed

lemma compareVersions_greater:
  "compareVersions a b = 1 \<longleftrightarrow>
     (\<exists>k. js_lt (segment b k) (segment a k) \<and> (\<forall>j<k. segment a j = segment b j))"
proof -
  let ?n = "max (length (split_dot a)) (length (split_dot b))"
  have "(\<exists>k. k < ?n \<and> js_lt (segment b k) (segment a k) \<and> (\<forall>j. j < k \<longrightarrow> segment a j = segment b j))
     \<longleftrightarrow> (\<exists>k. js_lt (segment b k) (segment a k) \<and> (\<forall>j<k. segment a j = segment b j))"
    (is "?L \<longleftrightarrow> ?R")
  proof
    assume ?R
    then obtain k where k: "js_lt (segment b k) (segment a k)" "\<forall>j<k. segment a j = segment b j"
      by blast
    have "k < ?n"
    proof (rule ccontr)
      assume "\<not> k < ?n"
      then have "segment a k = Fin 0" "segment b k = Fin 0" by (simp_all add: segment_beyond)
      with k show False by simp
    qed
    with k show ?L by blast
  qed blast
  then show ?thesis
    by (simp add: compareVersions_def Let_def compare_from_greater segment_at)
qed

lemma compareVersions_range: "compareVersions a b \<in> {- 1, 0, 1}"
  by (simp add: compareVersions_def Let_def compare_from_range del: insert_iff)

lemma compareVersions_antisym: "compareVersions a b = - compareVersions b a"
proof -
  have sym: "\<And>k. (\<forall>j<k. segment a j = segment b j) \<longleftrightarrow> (\<forall>j<k. segment b j = segment a j)"
    by metis
  consider "compareVersions a b = - 1" | "compareVersions a b = 0" | "compareVersions a b = 1"
    using compareVersions_range [of a b] by auto
  then show ?thesis
  proof cases
    case 1
    then have "compareVersions b a = 1"
      unfolding compareVersions_less compareVersions_greater sym .
    with 1 show ?thesis by simp
  next
    case 2
    then have "compareVersions b a = 0"
      unfolding compareVersions_zero by simp
    with 2 show ?thesis by simp
  next
    case 3
    then have "compareVersions b a = - 1"
      unfolding compareVersions_less compareVersions_greater sym .
    with 3 show ?thesis by simp
  qed
qed

lemma compareVersions_refl: "compareVersions a a = 0"
  by (simp add: compareVersions_zero)

subsection \<open>The comparator is a total preorder\<close>

lemma first_diff_trans:
  assumes "js_lt (f k1) (g k1)" "\<forall>j<(k1::nat). f j = g j"
    and "js_lt (g k2) (h k2)" "\<forall>j<k2. g j = h j"
  shows "\<exists>k. js_lt (f k) (h k) \<and> (\<forall>j<k. f j = h j)"
proof -
  consider "k1 < k2" | "k1 = k2" | "k2 < k1" by linarith
  then show ?thesis
  proof cases
    case 1
    with assms have "js_lt (f k1) (h k1)" "\<forall>j<k1. f j = h j" by auto
    then show ?thesis by blast
  next
    case 2
    with assms have "js_lt (f k1) (h k1)" "\<forall>j<k1. f j = h j"
      using js_lt_trans by auto
    then show ?thesis by blast
  next
    case 3
    with assms have "js_lt (f k2) (h k2)" "\<forall>j<k2. f j = h j" by auto
    then show ?thesis by blast
  qed
qed

lemma compareVersions_cases:
  obtains "compareVersions a b = - 1" | "compareVersions a b = 0" | "compareVersions a b = 1"
  using compareVersions_range [of a b] by auto

lemma compareVersions_greater_trans:
  assumes "compareVersions a b = 1" "compareVersions b c = 1"
  shows "compareVersions a c = 1"
proof -
  from assms(2) obtain k1 where k1: "js_lt (segment c k1) (segment b k1)" "\<forall>j<k1. segment c j = segment b j"
    unfolding compareVersions_greater by metis
  from assms(1) obtain k2 where k2: "js_lt (segment b k2) (segment a k2)" "\<forall>j<k2. segment b j = segment a j"
    unfolding compareVersions_greater by metis
  from first_diff_trans [OF k1 k2] obtain k
    where "js_lt (segment c k) (segment a k)" "\<forall>j<k. segment c j = segment a j" by blast
  then show ?thesis unfolding compareVersions_greater by metis
qed

lemma compareVersions_cong_left:
  assumes "compareVersions a b = 0"
  shows "compareVersions a c = compareVersions b c"
proof -
  from assms have eq: "\<And>k. segment a k = segment b k" by (simp add: compareVersions_zero)
  have "compareVersions a c = - 1 \<longleftrightarrow> compareVersions b c = - 1"
    by (simp add: compareVersions_less eq)
  moreover have "compareVersions a c = 1 \<longleftrightarrow> compareVersions b c = 1"
    by (simp add: compareVersions_greater eq)
  moreover have "compareVersions a c = 0 \<longleftrightarrow> compareVersions b c = 0"
    by (simp add: compareVersions_zero eq)
  ultimately show ?thesis
    by (cases a c rule: compareVersions_cases; cases b c rule: compareVersions_cases) simp_all
qed

lemma compareVersions_cong_right:
  assumes "compareVersions b c = 0"
  shows "compareVersions a b = compareVersions a c"
proof -
  from assms have "compareVersions c b = 0" using compareVersions_antisym [of c b] by simp
  then have "compareVersions c a = compareVersions b a"
    using compareVersions_cong_left [of c b a] by simp
  then show ?thesis
    using compareVersions_antisym [of a b] compareVersions_antisym [of a c] by simp
qed

lemma compareVersions_ge_trans:
  assumes "0 \<le> compareVersions a b" "0 \<le> compareVersions b c"
  shows "0 \<le> compareVersions a c"
proof (cases a b rule: compareVersions_cases)
  case 1
  with assms show ?thesis by simp
next
  case 2
  then show ?thesis using compareVersions_cong_left [of a b c] assms by simp
next
  case ab: 3
  show ?thesis
  proof (cases b c rule: compareVersions_cases)
    case 1
    with assms show ?thesis by simp
  next
    case 2
    then show ?thesis using compareVersions_cong_right [of b c a] ab by simp
  next
    case 3
    then show ?thesis using compareVersions_greater_trans [OF ab] by simp
  qed
qed

subsection \<open>The sort\<close>

lemma set_insert_sorted: "set (insert_sorted cmp x ys) = insert x (set ys)"
  by (induction ys) auto

lemma set_js_sort: "set (js_sort cmp xs) = set xs"
  by (induction xs) (simp_all add: js_sort_def set_insert_sorted)

lemma js_sort_Cons: "js_sort cmp (x # xs) = insert_sorted cmp x (js_sort cmp xs)"
  by (simp add: js_sort_def)

lemma js_sort_empty_iff: "js_sort cmp xs = [] \<longleftrightarrow> xs = []"
  using set_js_sort [of cmp xs] by (metis set_empty)

subsection \<open>The insertion sort has the property of the engine's sort\<close>

lemma decided_not_gt:
  assumes "total_preorder_on A R" "decides cmp A R" "x \<in> A" "y \<in> A"
    and "\<not> js_gt (cmp x y) (Fin 0)"
  shows "R x y"
proof (rule ccontr)
  assume "\<not> R x y"
  with assms(2-4) have "js_gt (cmp x y) (Fin 0)" by (auto simp: decides_def)
  with assms(5) show False by simp
qed

lemma decided_not_lt:
  assumes "total_preorder_on A R" "decides cmp A R" "x \<in> A" "y \<in> A"
    and "\<not> js_lt (cmp x y) (Fin 0)"
  shows "R y x"
proof (rule ccontr)
  assume "\<not> R y x"
  with assms(2-4) have "js_lt (cmp x y) (Fin 0)" by (auto simp: decides_def)
  with assms(5) show False by simp
qed

lemma decided_gt:
  assumes "total_preorder_on A R" "decides cmp A R" "x \<in> A" "y \<in> A"
    and "js_gt (cmp x y) (Fin 0)"
  shows "R y x"
  using decided_not_lt [OF assms(1-4)] assms(5) js_lt_asym by (auto simp: js_gt_def)

lemma decided_lt:
  assumes "total_preorder_on A R" "decides cmp A R" "x \<in> A" "y \<in> A"
    and "js_lt (cmp x y) (Fin 0)"
  shows "R x y"
  using decided_not_gt [OF assms(1-4)] assms(5) js_lt_asym by (auto simp: js_gt_def)

text \<open>An array ordered by the comparator is ordered by every total preorder it decides.\<close>

lemma sorted_by_comparator_decided:
  assumes "total_preorder_on (set ys) R" "decides cmp (set ys) R"
    and "sorted_wrt (\<lambda>x y. \<not> js_gt (cmp x y) (Fin 0)) ys"
  shows "sorted_wrt R ys"
  using assms(3)
  by (rule sorted_wrt_mono_rel [rotated]) (rule decided_not_gt [OF assms(1,2)])

lemma preorder_trans:
  "total_preorder_on A R \<Longrightarrow> x \<in> A \<Longrightarrow> y \<in> A \<Longrightarrow> z \<in> A \<Longrightarrow> R x y \<Longrightarrow> R y z \<Longrightarrow> R x z"
  unfolding total_preorder_on_def by blast

lemma preorder_subset:
  "total_preorder_on A R \<Longrightarrow> B \<subseteq> A \<Longrightarrow> total_preorder_on B R"
  unfolding total_preorder_on_def by blast

lemma decides_subset: "decides cmp A R \<Longrightarrow> B \<subseteq> A \<Longrightarrow> decides cmp B R"
  unfolding decides_def by blast

lemma insert_sorted_decided:
  assumes "total_preorder_on A R" "decides cmp A R" "x \<in> A" "set ys \<subseteq> A" "sorted_wrt R ys"
  shows "sorted_wrt R (insert_sorted cmp x ys)"
  using assms(4,5)
proof (induction ys)
  case Nil
  then show ?case by simp
next
  case (Cons y ys)
  then have y: "y \<in> A" and ys: "set ys \<subseteq> A" by auto
  show ?case
  proof (cases "js_gt (cmp x y) (Fin 0)")
    case True
    have "R y x" by (rule decided_gt [OF assms(1,2,3) y True])
    moreover have "sorted_wrt R (insert_sorted cmp x ys)" using Cons ys by simp
    ultimately show ?thesis using True Cons.prems(2) by (simp add: set_insert_sorted)
  next
    case False
    have xy: "R x y" by (rule decided_not_gt [OF assms(1,2,3) y False])
    have "R x z" if "z \<in> set ys" for z
    proof -
      have "R y z" using Cons.prems(2) that by simp
      with xy show ?thesis using preorder_trans [OF assms(1,3) y] ys that by blast
    qed
    with xy False Cons.prems(2) show ?thesis by simp
  qed
qed

lemma js_sort_decided:
  assumes "total_preorder_on (set xs) R" "decides cmp (set xs) R"
  shows "sorted_wrt R (js_sort cmp xs)"
  using assms
proof (induction xs)
  case Nil
  then show ?case by (simp add: js_sort_def)
next
  case (Cons x xs)
  have "sorted_wrt R (js_sort cmp xs)"
    using Cons.prems by (intro Cons.IH preorder_subset [OF Cons.prems(1)] decides_subset [OF Cons.prems(2)]) auto
  then show ?case
    unfolding js_sort_Cons
    by (intro insert_sorted_decided [OF Cons.prems]) (simp_all add: set_js_sort subset_insertI)
qed

lemma engine_sortI:
  assumes "\<And>cmp xs. set (srt cmp xs) = set xs"
    and "\<And>cmp xs R. total_preorder_on (set xs) R \<Longrightarrow> decides cmp (set xs) R \<Longrightarrow>
           sorted_wrt R (srt cmp xs)"
  shows "engine_sort srt"
  unfolding engine_sort_def
proof (intro allI conjI impI)
  fix cmp xs
  show "set (srt cmp xs) = set xs" by (rule assms(1))
  fix R assume "total_preorder_on (set xs) R \<and> decides cmp (set xs) R"
  then show "sorted_wrt R (srt cmp xs)" using assms(2) by simp
qed

lemma engine_sort_js_sort: "engine_sort js_sort"
  by (rule engine_sortI) (simp_all add: set_js_sort js_sort_decided)

subsection \<open>The binary insertion sort has the property of the engine's sort\<close>

lemma take_run_append: "take_run cmp d prev ys = (run, after) \<Longrightarrow> run @ after = ys"
proof (induction ys arbitrary: prev run after)
  case Nil
  then show ?case by simp
next
  case (Cons y ys)
  then show ?case by (auto split: if_splits prod.splits)
qed

lemma take_run_ascending:
  assumes "total_preorder_on A R" "decides cmp A R"
  shows "take_run cmp False prev ys = (run, after) \<Longrightarrow> prev \<in> A \<Longrightarrow> set ys \<subseteq> A \<Longrightarrow>
         sorted_wrt R (prev # run)"
proof (induction ys arbitrary: prev run after)
  case Nil
  then show ?case by simp
next
  case (Cons y ys)
  show ?case
  proof (cases "js_lt (cmp y prev) (Fin 0)")
    case True
    with Cons.prems(1) show ?thesis by simp
  next
    case False
    then obtain run' where r: "take_run cmp False y ys = (run', after)" "run = y # run'"
      using Cons.prems(1) by (auto split: prod.splits)
    have y: "y \<in> A" "set ys \<subseteq> A" using Cons.prems(3) by auto
    have py: "R prev y" by (rule decided_not_lt [OF assms y(1) Cons.prems(2) False])
    have srt: "sorted_wrt R (y # run')" by (rule Cons.IH [OF r(1) y])
    have sub: "set run' \<subseteq> A" using take_run_append [OF r(1)] y(2) by auto
    have "R prev z" if "z \<in> set run'" for z
    proof -
      have "R y z" using srt that by simp
      with py show ?thesis
        using preorder_trans [OF assms(1) Cons.prems(2) y(1)] sub that by blast
    qed
    with py srt r(2) show ?thesis by simp
  qed
qed

lemma take_run_descending:
  assumes "total_preorder_on A R" "decides cmp A R"
  shows "take_run cmp True prev ys = (run, after) \<Longrightarrow> prev \<in> A \<Longrightarrow> set ys \<subseteq> A \<Longrightarrow>
         sorted_wrt (\<lambda>a b. R b a) (prev # run)"
proof (induction ys arbitrary: prev run after)
  case Nil
  then show ?case by simp
next
  case (Cons y ys)
  show ?case
  proof (cases "js_lt (cmp y prev) (Fin 0)")
    case False
    with Cons.prems(1) show ?thesis by simp
  next
    case True
    then obtain run' where r: "take_run cmp True y ys = (run', after)" "run = y # run'"
      using Cons.prems(1) by (auto split: prod.splits)
    have y: "y \<in> A" "set ys \<subseteq> A" using Cons.prems(3) by auto
    have py: "R y prev" by (rule decided_lt [OF assms y(1) Cons.prems(2) True])
    have srt: "sorted_wrt (\<lambda>a b. R b a) (y # run')" by (rule Cons.IH [OF r(1) y])
    have sub: "set run' \<subseteq> A" using take_run_append [OF r(1)] y(2) by auto
    have "R z prev" if "z \<in> set run'" for z
    proof -
      have "R z y" using srt that by simp
      with py show ?thesis
        using preorder_trans [OF assms(1) _ y(1) Cons.prems(2)] sub that by blast
    qed
    with py srt r(2) show ?thesis by simp
  qed
qed

lemma find_insertion_point_decided:
  "total_preorder_on A R \<Longrightarrow> decides cmp A R \<Longrightarrow> pivot \<in> A \<Longrightarrow> set work \<subseteq> A \<Longrightarrow>
   sorted_wrt R work \<Longrightarrow> left \<le> right \<Longrightarrow> right \<le> length work \<Longrightarrow>
         \<forall>i<left. R (work ! i) pivot \<Longrightarrow>
         \<forall>i. right \<le> i \<and> i < length work \<longrightarrow> R pivot (work ! i) \<Longrightarrow>
         (let k = find_insertion_point cmp pivot work left right
          in k \<le> length work \<and> (\<forall>i<k. R (work ! i) pivot) \<and>
             (\<forall>i. k \<le> i \<and> i < length work \<longrightarrow> R pivot (work ! i)))"
proof (induction cmp pivot work left right rule: find_insertion_point.induct)
  case (1 cmp pivot work left right)
  note sorted = "1.prems"(5) and sub = "1.prems"(4)
  show ?case
  proof (cases "left < right")
    case False
    with "1.prems" show ?thesis
      by (subst find_insertion_point.simps) (simp add: Let_def)
  next
    case True
    define mid where "mid = left + (right - left) div 2"
    have mid: "left \<le> mid" "mid < right" "mid < length work"
      using True "1.prems"(7) by (auto simp: mid_def)
    have inA: "work ! i \<in> A" if "i < length work" for i
      using sub that by (auto simp: subset_iff)
    have ord: "R (work ! i) (work ! j)" if "i < j" "j < length work" for i j
      using sorted that by (simp add: sorted_wrt_iff_nth_less)
    show ?thesis
    proof (cases "js_lt (cmp pivot (work ! mid)) (Fin 0)")
      case lt: True
      have pm: "R pivot (work ! mid)"
        by (rule decided_lt [OF "1.prems"(1,2,3) inA [OF mid(3)] lt])
      have hi: "\<forall>i. mid \<le> i \<and> i < length work \<longrightarrow> R pivot (work ! i)"
      proof (intro allI impI)
        fix i assume i: "mid \<le> i \<and> i < length work"
        show "R pivot (work ! i)"
        proof (cases "i = mid")
          case True
          with pm show ?thesis by simp
        next
          case False
          with i have "R (work ! mid) (work ! i)" by (intro ord) auto
          with pm show ?thesis
            using preorder_trans [OF "1.prems"(1,3) inA [OF mid(3)] inA] i by blast
        qed
      qed
      have "let k = find_insertion_point cmp pivot work left mid
          in k \<le> length work \<and> (\<forall>i<k. R (work ! i) pivot) \<and>
             (\<forall>i. k \<le> i \<and> i < length work \<longrightarrow> R pivot (work ! i))"
        using "1.IH"(1) [OF True mid_def lt "1.prems"(1-5)] mid "1.prems"(8) hi by simp
      moreover have "find_insertion_point cmp pivot work left right =
          find_insertion_point cmp pivot work left mid"
        using True lt by (subst find_insertion_point.simps) (simp add: Let_def mid_def)
      ultimately show ?thesis by simp
    next
      case nlt: False
      have mp: "R (work ! mid) pivot"
        by (rule decided_not_lt [OF "1.prems"(1,2,3) inA [OF mid(3)] nlt])
      have lo: "\<forall>i<mid + 1. R (work ! i) pivot"
      proof (intro allI impI)
        fix i assume i: "i < mid + 1"
        show "R (work ! i) pivot"
        proof (cases "i = mid")
          case True
          with mp show ?thesis by simp
        next
          case False
          with i mid have "R (work ! i) (work ! mid)" by (intro ord) auto
          with mp show ?thesis
            using preorder_trans [OF "1.prems"(1) inA inA [OF mid(3)] "1.prems"(3)] i mid by simp
        qed
      qed
      have "let k = find_insertion_point cmp pivot work (mid + 1) right
          in k \<le> length work \<and> (\<forall>i<k. R (work ! i) pivot) \<and>
             (\<forall>i. k \<le> i \<and> i < length work \<longrightarrow> R pivot (work ! i))"
        using "1.IH"(2) [OF True mid_def nlt "1.prems"(1-5)] mid "1.prems"(7,9) lo by simp
      moreover have "find_insertion_point cmp pivot work left right =
          find_insertion_point cmp pivot work (mid + 1) right"
        using True nlt by (subst find_insertion_point.simps) (simp add: Let_def mid_def)
      ultimately show ?thesis by simp
    qed
  qed
qed

lemma set_binary_insert: "set (binary_insert cmp work pivot) = insert pivot (set work)"
proof -
  have "set (take k work @ pivot # drop k work) = insert pivot (set work)" for k
  proof -
    have "set (take k work) \<union> set (drop k work) = set work"
      by (metis append_take_drop_id set_append)
    then show ?thesis by auto
  qed
  then show ?thesis by (simp add: binary_insert_def Let_def)
qed

lemma binary_insert_decided:
  assumes "total_preorder_on A R" "decides cmp A R" "pivot \<in> A" "set work \<subseteq> A" "sorted_wrt R work"
  shows "sorted_wrt R (binary_insert cmp work pivot)"
proof -
  define k where "k = find_insertion_point cmp pivot work 0 (length work)"
  have "let k = find_insertion_point cmp pivot work 0 (length work)
        in k \<le> length work \<and> (\<forall>i<k. R (work ! i) pivot) \<and>
           (\<forall>i. k \<le> i \<and> i < length work \<longrightarrow> R pivot (work ! i))"
    by (rule find_insertion_point_decided [OF assms]) auto
  then have k: "k \<le> length work" "\<forall>i<k. R (work ! i) pivot"
    "\<forall>i. k \<le> i \<and> i < length work \<longrightarrow> R pivot (work ! i)"
    by (simp_all add: k_def Let_def)
  have before: "R x pivot" if "x \<in> set (take k work)" for x
  proof -
    from that obtain i where "i < length (take k work)" "take k work ! i = x"
      by (auto simp: in_set_conv_nth)
    then show ?thesis using k(1,2) by auto
  qed
  have after: "R pivot y" if "y \<in> set (drop k work)" for y
  proof -
    from that obtain i where i: "i < length (drop k work)" "drop k work ! i = y"
      by (auto simp: in_set_conv_nth)
    then have "work ! (k + i) = y" "k + i < length work" using k(1) by auto
    then show ?thesis using k(3) by auto
  qed
  have "sorted_wrt R (take k work @ drop k work)" using assms(5) by simp
  then have parts: "sorted_wrt R (take k work)" "sorted_wrt R (drop k work)"
    "\<forall>x\<in>set (take k work). \<forall>y\<in>set (drop k work). R x y"
    unfolding sorted_wrt_append by simp_all
  have "sorted_wrt R (take k work @ pivot # drop k work)"
    unfolding sorted_wrt_append using parts before after by auto
  then show ?thesis by (simp add: binary_insert_def Let_def k_def)
qed

lemma set_foldl_binary_insert:
  "set (foldl (binary_insert cmp) work ys) = set work \<union> set ys"
  by (induction ys arbitrary: work) (auto simp: set_binary_insert)

lemma foldl_binary_insert_decided:
  assumes "total_preorder_on A R" "decides cmp A R"
  shows "set work \<subseteq> A \<Longrightarrow> set ys \<subseteq> A \<Longrightarrow> sorted_wrt R work \<Longrightarrow>
         sorted_wrt R (foldl (binary_insert cmp) work ys)"
proof (induction ys arbitrary: work)
  case Nil
  then show ?case by simp
next
  case (Cons y ys)
  have "sorted_wrt R (binary_insert cmp work y)"
    using Cons.prems by (intro binary_insert_decided [OF assms]) auto
  moreover have "set (binary_insert cmp work y) \<subseteq> A"
    using Cons.prems by (simp add: set_binary_insert)
  ultimately show ?case using Cons.IH Cons.prems(2) by simp
qed

lemma set_binary_insertion_sort: "set (binary_insertion_sort cmp xs) = set xs"
proof (cases xs)
  case Nil
  then show ?thesis by (simp add: binary_insertion_sort_def)
next
  case (Cons a ys)
  show ?thesis
  proof (cases ys)
    case Nil
    with Cons show ?thesis by (simp add: binary_insertion_sort_def)
  next
    case (Cons b rest)
    obtain run after where r: "take_run cmp (js_lt (cmp b a) (Fin 0)) b rest = (run, after)"
      by (cases "take_run cmp (js_lt (cmp b a) (Fin 0)) b rest") auto
    have "set run \<union> set after = set rest" using take_run_append [OF r] by auto
    then show ?thesis
      using r \<open>xs = a # ys\<close> Cons
      by (auto simp: binary_insertion_sort_def Let_def set_foldl_binary_insert)
  qed
qed

lemma binary_insertion_sort_decided:
  assumes "total_preorder_on (set xs) R" "decides cmp (set xs) R"
  shows "sorted_wrt R (binary_insertion_sort cmp xs)"
proof (cases xs)
  case Nil
  then show ?thesis by (simp add: binary_insertion_sort_def)
next
  case (Cons a ys)
  show ?thesis
  proof (cases ys)
    case Nil
    with Cons show ?thesis by (simp add: binary_insertion_sort_def)
  next
    case (Cons b rest)
    then have xs: "xs = a # b # rest" using \<open>xs = a # ys\<close> by simp
    define d where "d = js_lt (cmp b a) (Fin 0)"
    obtain run after where r: "take_run cmp d b rest = (run, after)"
      by (cases "take_run cmp d b rest") auto
    have ra: "run @ after = rest" by (rule take_run_append [OF r])
    have inA: "a \<in> set xs" "b \<in> set xs" "set rest \<subseteq> set xs" "set run \<subseteq> set xs"
      "set after \<subseteq> set xs"
      using xs ra by auto
    have first: "sorted_wrt R (if d then rev (a # b # run) else a # b # run)"
    proof (cases d)
      case True
      then have ba: "R b a" using decided_lt [OF assms inA(2,1)] by (simp add: d_def)
      have s: "sorted_wrt (\<lambda>x y. R y x) (b # run)"
        using take_run_descending [OF assms _ inA(2,3)] r True by simp
      have "R z a" if "z \<in> set run" for z
      proof -
        have "R z b" using s that by simp
        with ba show ?thesis using preorder_trans [OF assms(1) _ inA(2,1)] inA(4) that by blast
      qed
      with ba s have "sorted_wrt (\<lambda>x y. R y x) (a # b # run)" by simp
      then have "sorted_wrt R (rev (a # b # run))" by (simp only: sorted_wrt_rev)
      with True show ?thesis by simp
    next
      case False
      then have ab: "R a b" using decided_not_lt [OF assms inA(2,1)] by (simp add: d_def)
      have s: "sorted_wrt R (b # run)"
        using take_run_ascending [OF assms _ inA(2,3)] r False by simp
      have "R a z" if "z \<in> set run" for z
      proof -
        have "R b z" using s that by simp
        with ab show ?thesis using preorder_trans [OF assms(1) inA(1,2)] inA(4) that by blast
      qed
      with ab s False show ?thesis by simp
    qed
    have "set (if d then rev (a # b # run) else a # b # run) \<subseteq> set xs"
      using inA by auto
    from foldl_binary_insert_decided [OF assms this inA(5) first]
    show ?thesis using r by (simp add: binary_insertion_sort_def xs Let_def d_def)
  qed
qed

lemma engine_sort_binary_insertion_sort: "engine_sort binary_insertion_sort"
  by (rule engine_sortI) (simp_all add: set_binary_insertion_sort binary_insertion_sort_decided)

section \<open>Facts about rounding and \<open>Number\<close>\<close>

lemma pow2_pos: "0 < pow2 e"
  by (simp add: pow2_def)

lemma pow2_nat: "pow2 (int k) = 2 ^ k"
  by (simp add: pow2_def)

lemma pow2_neg_nat: "pow2 (- int k) = 1 / 2 ^ k"
  by (cases "k = 0") (simp_all add: pow2_def)

lemma floorlog_2_1: "floorlog 2 (Suc 0) = 1"
  by (subst compute_floorlog) (simp add: floorlog_def)

lemma ilog2_nat:
  assumes "0 < a"
  shows "ilog2 a 1 = int (floorlog 2 a) - 1"
proof -
  have b: "2 ^ (floorlog 2 a - 1) \<le> a" "a < 2 ^ floorlog 2 a"
    using floorlog_bounds [of a 2] assms by simp_all
  have L: "1 \<le> floorlog 2 a"
    using b(2) assms by (cases "floorlog 2 a") simp_all
  have "pow2 (int (floorlog 2 a) - 1) = 2 ^ (floorlog 2 a - 1)"
    using L pow2_nat [of "floorlog 2 a - 1"] by (simp add: of_nat_diff)
  also have "\<dots> \<le> of_nat a"
    using b(1) by (metis of_nat_le_iff of_nat_numeral of_nat_power)
  finally show ?thesis
    by (simp add: ilog2_def floorlog_2_1)
qed

lemma round_double_exact:
  assumes "0 < a" "a < 2 ^ 53"
  shows "round_double a 1 = Fin (of_nat a)"
proof -
  define L where "L = floorlog 2 a"
  have b: "2 ^ (L - 1) \<le> a" "a < 2 ^ L"
    using floorlog_bounds [of a 2] assms unfolding L_def by simp_all
  have L1: "1 \<le> L" using b(2) assms by (cases L) simp_all
  have lt: "(2::nat) ^ (L - 1) < 2 ^ 53" using b(1) assms(2) by linarith
  have "L - 1 < 53" by (rule power_less_imp_less_exp [OF _ lt]) simp
  then have L53: "L \<le> 53" by simp
  define k where "k = 53 - L"
  have e: "ilog2 a 1 = int L - 1" using ilog2_nat [OF assms(1)] by (simp add: L_def)
  have mx: "max (ilog2 a 1) (- 1022) = int L - 1" using e L1 by simp
  have "int L - 1 - 52 = - int k" using L53 L1 by (simp add: k_def)
  then have u: "pow2 (max (ilog2 a 1) (- 1022) - 52) = 1 / 2 ^ k"
    using mx pow2_neg_nat [of k] by simp
  have qu: "of_nat a / 1 / (1 / 2 ^ k) = (of_int (int a * 2 ^ k) :: rat)" by simp
  have big: "\<not> pow2 1024 \<le> (of_nat a :: rat)"
  proof -
    have "(of_nat a :: rat) < of_nat (2 ^ 53)" using assms(2) by (simp only: of_nat_less_iff)
    also have "\<dots> \<le> 2 ^ 1024" by simp
    finally show ?thesis using pow2_nat [of 1024] by simp
  qed
  show ?thesis
    using assms(1) big
    unfolding round_double_def Let_def u by (simp add: qu)
qed

lemma pow2_mono: "x \<le> y \<Longrightarrow> pow2 x \<le> pow2 y"
proof -
  have "pow2 e = 2 powi e" for e
    by (simp add: pow2_def power_int_def power_one_over inverse_eq_divide)
  then show "x \<le> y \<Longrightarrow> pow2 x \<le> pow2 y"
    by (simp add: power_int_increasing)
qed

lemma round_double_pos:
  assumes "0 < a"
  shows "js_lt (Fin 0) (round_double a 1)"
proof -
  define L where "L = floorlog 2 a"
  have b: "2 ^ (L - 1) \<le> a"
    using floorlog_bounds [of a 2] assms unfolding L_def by simp
  have L1: "1 \<le> L"
    using floorlog_bounds [of a 2] assms unfolding L_def by (cases "floorlog 2 a") simp_all
  define e where "e = max (ilog2 a 1) (- 1022)"
  have e: "e = int L - 1" using ilog2_nat [OF assms] L1 by (simp add: e_def L_def)
  define u where "u = pow2 (e - 52)"
  have u0: "0 < u" by (simp add: u_def pow2_pos)
  have "u \<le> pow2 (int (L - 1))" unfolding u_def using e L1 by (intro pow2_mono) simp
  also have "\<dots> = 2 ^ (L - 1)" by (rule pow2_nat)
  also have "\<dots> \<le> of_nat a"
    using b by (metis of_nat_le_iff of_nat_numeral of_nat_power)
  finally have "1 \<le> of_nat a / u" using u0 by (simp add: le_divide_eq)
  then have n1: "1 \<le> \<lfloor>(of_nat a :: rat) / u\<rfloor>" by simp
  define n where "n = \<lfloor>(of_nat a :: rat) / u\<rfloor>"
  define m where "m = (if of_nat a / u - of_int n < 1 / 2 then n
     else if 1 / 2 < of_nat a / u - of_int n then n + 1 else if even n then n else n + 1)"
  have "1 \<le> m" using n1 by (simp add: m_def n_def)
  then have v: "0 < of_int m * u" using u0 by simp
  have "round_double a 1 = (if pow2 1024 \<le> of_int m * u then PosInf else Fin (of_int m * u))"
    using assms by (simp add: round_double_def Let_def m_def n_def u_def e_def)
  with v show ?thesis by simp
qed

lemma round_int_0: "round_int 0 = Fin 0"
  by (simp add: round_int_def round_double_def)

lemma round_int_pos: "0 < i \<Longrightarrow> js_lt (Fin 0) (round_int i)"
  using round_double_pos [of "nat i"] by (simp add: round_int_def)

lemma js_neg_pos: "js_lt (Fin 0) x \<Longrightarrow> js_lt (js_neg x) (Fin 0)"
  by (cases x) auto

lemma round_int_neg: "i < 0 \<Longrightarrow> js_lt (round_int i) (Fin 0)"
  using round_double_pos [of "nat (- i)"] by (simp add: round_int_def js_neg_pos)

lemma floorlog_eqI: "2 ^ (w - 1) \<le> x \<Longrightarrow> x < 2 ^ w \<Longrightarrow> floorlog 2 x = w"
  using floorlog_geI [of 2 w x] floorlog_leI [of x 2 w] by simp

lemma round_double_2_53: "round_double 9007199254740992 1 = Fin 9007199254740992"
proof -
  have "floorlog 2 9007199254740992 = 54" by (rule floorlog_eqI) simp_all
  then have "ilog2 9007199254740992 1 = 53" using ilog2_nat [of 9007199254740992] by simp
  then show ?thesis by (simp add: round_double_def Let_def pow2_def)
qed

lemma round_double_2_53_1: "round_double 9007199254740993 1 = Fin 9007199254740992"
proof -
  have "floorlog 2 9007199254740993 = 54" by (rule floorlog_eqI) simp_all
  then have "ilog2 9007199254740993 1 = 53" using ilog2_nat [of 9007199254740993] by simp
  moreover have "\<lfloor>(9007199254740993 :: rat) / 2\<rfloor> = 4503599627370496"
    using floor_divide_of_int_eq [of 9007199254740993 2, where ?'a = rat] by simp
  ultimately show ?thesis by (simp add: round_double_def Let_def pow2_def)
qed

lemma round_double_nat_le:
  assumes "a \<le> 2 ^ 53"
  shows "round_double a 1 = Fin (of_nat a)"
proof -
  consider "a = 0" | "0 < a" "a < 2 ^ 53" | "a = 9007199254740992"
    using assms by fastforce
  then show ?thesis
  proof cases
    case 1
    then show ?thesis by (simp add: round_double_def)
  next
    case 2
    then show ?thesis by (rule round_double_exact)
  next
    case 3
    then show ?thesis using round_double_2_53 by simp
  qed
qed

subsection \<open>\<open>Number\<close> on a string of decimal digits\<close>

lemma find_units_None:
  "\<forall>u\<in>set us. u \<noteq> [] \<longrightarrow> hd u \<noteq> c \<Longrightarrow>
   List.find (\<lambda>u. u \<noteq> [] \<and> starts_with u (c # cs)) us = None"
proof (induction us)
  case Nil
  then show ?case by simp
next
  case (Cons u us)
  then show ?case by (cases u) auto
qed

lemma drop_units_keep:
  "\<forall>u\<in>set us. u \<noteq> [] \<longrightarrow> hd u \<noteq> c \<Longrightarrow> drop_units k us (c # cs) = c # cs"
  by (cases k) (simp_all add: find_units_None)

lemma digit_not_ws_head: "is_digit c \<Longrightarrow> \<forall>u\<in>set ws_units. u \<noteq> [] \<longrightarrow> hd u \<noteq> c"
  by (auto simp: is_digit_def ws_units_def)

lemma digit_not_ws_last: "is_digit c \<Longrightarrow> \<forall>u\<in>set (map rev ws_units). u \<noteq> [] \<longrightarrow> hd u \<noteq> c"
  by (auto simp: is_digit_def ws_units_def)

lemma trim_ws_digits:
  assumes "all_digits s"
  shows "trim_ws s = s"
proof -
  from assms obtain c cs where s: "s = c # cs" and c: "is_digit c"
    by (cases s) (auto simp: all_digits_def)
  from assms have "rev s \<noteq> []" "is_digit (last s)"
    by (auto simp: all_digits_def list_all_iff)
  then obtain d ds where r: "rev s = d # ds" and d: "is_digit d"
    by (cases "rev s") (auto simp: last_rev hd_rev [symmetric])
  have 1: "drop_units (length s) ws_units s = s"
    unfolding s using c by (intro drop_units_keep digit_not_ws_head)
  have 2: "drop_units (length s) (map rev ws_units) (rev s) = rev s"
    unfolding r using d by (intro drop_units_keep digit_not_ws_last)
  show ?thesis by (simp add: trim_ws_def Let_def 1 2)
qed

lemma non_decimal_digits:
  assumes "all_digits s"
  shows "non_decimal s = None"
proof (cases s)
  case Nil
  then show ?thesis by (simp add: non_decimal_def)
next
  case (Cons c cs)
  show ?thesis
  proof (cases cs)
    case Nil
    with Cons show ?thesis by (simp add: non_decimal_def)
  next
    case (Cons d ds)
    with assms \<open>s = c # cs\<close> have "is_digit d" by (simp add: all_digits_def)
    then have "d \<notin> set ''bB''" "d \<notin> set ''oO''" "d \<notin> set ''xX''"
      by (auto simp: is_digit_def)
    with Cons \<open>s = c # cs\<close> show ?thesis by (simp add: non_decimal_def)
  qed
qed

lemma unsigned_decimal_digits:
  assumes "all_digits s"
  shows "unsigned_decimal s = round_double (digits_val 10 s) 1"
proof -
  from assms have ne: "s \<noteq> []" and dig: "\<forall>c\<in>set s. is_digit c"
    by (auto simp: all_digits_def list_all_iff)
  have neq: "c \<noteq> CHR ''I'' \<and> c \<noteq> CHR ''e'' \<and> c \<noteq> CHR ''E'' \<and> c \<noteq> CHR ''.''" if "is_digit c" for c
    using that by (auto simp: is_digit_def)
  obtain c cs where s: "s = c # cs" using ne by (cases s) auto
  then have "c \<noteq> CHR ''I''" using dig neq by auto
  then have inf: "s \<noteq> ''Infinity''" using s by auto
  have noe: "\<forall>c\<in>set s. \<not> (c = CHR ''e'' \<or> c = CHR ''E'')"
    using dig neq by blast
  have nodot: "\<forall>c\<in>set s. c \<noteq> CHR ''.''"
    using dig neq by blast
  have tw: "takeWhile (\<lambda>c. c \<noteq> CHR ''e'' \<and> c \<noteq> CHR ''E'') s = s"
    using noe by simp
  have dw: "dropWhile (\<lambda>c. c \<noteq> CHR ''e'' \<and> c \<noteq> CHR ''E'') s = []"
    using noe by simp
  have tw2: "takeWhile (\<lambda>c. c \<noteq> CHR ''.'') s = s"
    using nodot by simp
  have dw2: "dropWhile (\<lambda>c. c \<noteq> CHR ''.'') s = []"
    using nodot by simp
  show ?thesis
    using inf ne dig
    by (simp add: unsigned_decimal_def Let_def tw dw tw2 dw2 list_all_iff round_scaled_def)
qed

lemma Number_digits:
  assumes "all_digits s" "digits_val 10 s \<le> 2 ^ 53"
  shows "Number s = Fin (of_nat (digits_val 10 s))"
proof -
  from assms(1) obtain c cs where s: "s = c # cs" and c: "is_digit c"
    by (cases s) (auto simp: all_digits_def)
  from c have sign: "c \<noteq> CHR ''+''" "c \<noteq> CHR ''-''" by (auto simp: is_digit_def)
  have "trim_ws (c # cs) = c # cs" "non_decimal (c # cs) = None"
    using trim_ws_digits [OF assms(1)] non_decimal_digits [OF assms(1)] by (simp_all add: s)
  then have "Number s = unsigned_decimal s"
    using sign by (simp add: Number_def Let_def s)
  then show ?thesis
    using unsigned_decimal_digits [OF assms(1)] round_double_nat_le [OF assms(2)] by simp
qed

lemma Number_digits_above:
  assumes "all_digits s"
  shows "Number s = round_double (digits_val 10 s) 1"
proof -
  from assms(1) obtain c cs where s: "s = c # cs" and c: "is_digit c"
    by (cases s) (auto simp: all_digits_def)
  from c have sign: "c \<noteq> CHR ''+''" "c \<noteq> CHR ''-''" by (auto simp: is_digit_def)
  have "trim_ws (c # cs) = c # cs" "non_decimal (c # cs) = None"
    using trim_ws_digits [OF assms(1)] non_decimal_digits [OF assms(1)] by (simp_all add: s)
  then have "Number s = unsigned_decimal s"
    using sign by (simp add: Number_def Let_def s)
  then show ?thesis
    using unsigned_decimal_digits [OF assms(1)] by simp
qed

lemma Number_empty: "Number [] = Fin 0"
  by (simp add: Number_def trim_ws_def)

section \<open>Facts about the resolver\<close>

lemma getLatest_eq:
  "getLatestDocumentVersion tv docs docId =
     (case js_sort (compare_documents tv) (filter (\<lambda>doc. documentId doc = docId) docs) of
        [] \<Rightarrow> None | l # rest \<Rightarrow> Some l)"
  by (simp add: getLatestDocumentVersion_def Let_def split: list.split)

lemma getLatest_None_iff:
  "getLatestDocumentVersion tv docs docId = None \<longleftrightarrow> (\<forall>d\<in>set docs. documentId d \<noteq> docId)"
proof -
  have "js_sort (compare_documents tv) (filter (\<lambda>doc. documentId doc = docId) docs) = []
        \<longleftrightarrow> filter (\<lambda>doc. documentId doc = docId) docs = []"
    by (rule js_sort_empty_iff)
  then show ?thesis
    by (auto simp: getLatest_eq filter_empty_conv split: list.splits)
qed

text \<open>On the store, the function returns the same record and changes no array that was there.\<close>

lemma getLatest_heap:
  assumes "a < length h"
  shows "fst (getLatestDocumentVersion_heap tv a docId h) = getLatestDocumentVersion tv (h ! a) docId"
    and "\<forall>i<length h. snd (getLatestDocumentVersion_heap tv a docId h) ! i = h ! i"
  using assms
  by (simp_all add: getLatestDocumentVersion_heap_def array_filter_def array_sort_def
      getLatestDocumentVersion_def Let_def nth_append)

text \<open>A record whose date cannot be parsed is not the latest, even when it is the only record.\<close>

lemma isLatest_invalid_date:
  "tv (date doc) = None \<Longrightarrow> \<not> isLatestVersion tv [doc] doc"
  by (simp add: isLatestVersion_def getLatestDocumentVersion_def js_sort_def compareVersions_refl
      js_ge_def)

lemma js_ge_time:
  "js_ge (time_number x) (time_number y) \<longleftrightarrow> (\<exists>t1 t2. x = Some t1 \<and> y = Some t2 \<and> t2 \<le> t1)"
  by (cases x; cases y) (auto simp: js_ge_def)

lemma isLatest_iff:
  assumes "getLatestDocumentVersion tv docs (documentId doc) = Some latest"
  shows "isLatestVersion tv docs doc \<longleftrightarrow>
     0 < compareVersions (version doc) (version latest) \<or>
     (compareVersions (version doc) (version latest) = 0 \<and>
      (\<exists>t1 t2. tv (date doc) = Some t1 \<and> tv (date latest) = Some t2 \<and> t2 \<le> t1))"
  using assms by (auto simp: isLatestVersion_def Let_def js_ge_time)

subsection \<open>The resolver on an engine's sort\<close>

lemma getLatest_by_eq:
  "getLatestDocumentVersion_by srt tv docs docId =
     (case srt (compare_documents tv) (filter (\<lambda>doc. documentId doc = docId) docs) of
        [] \<Rightarrow> None | l # rest \<Rightarrow> Some l)"
  by (simp add: getLatestDocumentVersion_by_def Let_def split: list.split)

lemma getLatest_by_js_sort:
  "getLatestDocumentVersion_by js_sort tv docs docId = getLatestDocumentVersion tv docs docId"
  by (simp add: getLatestDocumentVersion_by_def getLatestDocumentVersion_def)

lemma isLatest_by_js_sort:
  "isLatestVersion_by js_sort tv docs doc = isLatestVersion tv docs doc"
  by (simp add: isLatestVersion_by_def isLatestVersion_def getLatest_by_js_sort)

lemma engine_sort_set: "engine_sort srt \<Longrightarrow> set (srt cmp xs) = set xs"
  unfolding engine_sort_def by blast

lemma engine_sort_sorted:
  "engine_sort srt \<Longrightarrow> total_preorder_on (set xs) R \<Longrightarrow> decides cmp (set xs) R \<Longrightarrow>
   sorted_wrt R (srt cmp xs)"
  unfolding engine_sort_def by blast

lemma getLatest_by_None_iff:
  assumes "engine_sort srt"
  shows "getLatestDocumentVersion_by srt tv docs docId = None \<longleftrightarrow>
         (\<forall>d\<in>set docs. documentId d \<noteq> docId)"
proof -
  let ?xs = "filter (\<lambda>doc. documentId doc = docId) docs"
  have "srt (compare_documents tv) ?xs = [] \<longleftrightarrow> ?xs = []"
    using engine_sort_set [OF assms, of "compare_documents tv" ?xs] by (metis set_empty)
  then show ?thesis
    by (auto simp: getLatest_by_eq filter_empty_conv split: list.splits)
qed

lemma version_preorder:
  "total_preorder_on (A :: document set) (\<lambda>a b. 0 \<le> compareVersions (version a) (version b))"
  unfolding total_preorder_on_def
proof (intro conjI ballI impI)
  fix x y :: document
  show "0 \<le> compareVersions (version x) (version y) \<or> 0 \<le> compareVersions (version y) (version x)"
    using compareVersions_antisym [of "version x" "version y"] by linarith
next
  fix x y z :: document
  assume "0 \<le> compareVersions (version x) (version y) \<and> 0 \<le> compareVersions (version y) (version z)"
  then show "0 \<le> compareVersions (version x) (version z)"
    using compareVersions_ge_trans by blast
qed

lemma version_decided:
  "decides (compare_documents tv) (A :: document set) (\<lambda>a b. 0 \<le> compareVersions (version a) (version b))"
  unfolding decides_def
proof (intro ballI impI)
  fix x y :: document
  assume "\<not> 0 \<le> compareVersions (version y) (version x)"
  then have yx: "compareVersions (version y) (version x) = - 1"
    by (cases "version y" "version x" rule: compareVersions_cases) simp_all
  then have xy: "compareVersions (version x) (version y) = 1"
    using compareVersions_antisym [of "version x" "version y"] by simp
  show "js_lt (compare_documents tv x y) (Fin 0) \<and> js_gt (compare_documents tv y x) (Fin 0)"
    by (simp add: compare_documents_def xy yx js_gt_def)
qed

lemma getLatest_by_Some:
  assumes "engine_sort srt" "getLatestDocumentVersion_by srt tv docs docId = Some l"
  shows "l \<in> set docs" "documentId l = docId"
    and "\<And>r. r \<in> set docs \<Longrightarrow> documentId r = docId \<Longrightarrow> 0 \<le> compareVersions (version l) (version r)"
proof -
  let ?xs = "filter (\<lambda>doc. documentId doc = docId) docs"
  let ?R = "\<lambda>a b. 0 \<le> compareVersions (version a) (version b)"
  from assms(2) obtain rest where srt: "srt (compare_documents tv) ?xs = l # rest"
    by (auto simp: getLatest_by_eq split: list.splits)
  have s: "set (l # rest) = set ?xs"
    using engine_sort_set [OF assms(1), of "compare_documents tv" ?xs] srt by simp
  then have "l \<in> set ?xs" by auto
  then show "l \<in> set docs" "documentId l = docId" by simp_all
  fix r assume "r \<in> set docs" "documentId r = docId"
  then have "r \<in> set (l # rest)" using s by simp
  moreover have "sorted_wrt ?R (l # rest)"
    using engine_sort_sorted [OF assms(1) version_preorder version_decided, where xs = ?xs and tv1 = tv]
      srt by simp
  ultimately show "0 \<le> compareVersions (version l) (version r)"
    using compareVersions_refl [of "version l"] by auto
qed

text \<open>A record that the comparator puts before every other one comes first.\<close>

lemma engine_sort_hd_dominant:
  assumes "engine_sort srt" "m \<in> set xs"
    and dom: "\<And>y. y \<in> set xs \<Longrightarrow> y \<noteq> m \<Longrightarrow> js_lt (cmp m y) (Fin 0) \<and> js_gt (cmp y m) (Fin 0)"
  shows "\<exists>rest. srt cmp xs = m # rest"
proof -
  let ?R = "\<lambda>x y. x = m \<or> y \<noteq> m"
  have "total_preorder_on (set xs) ?R" unfolding total_preorder_on_def by blast
  moreover have "decides cmp (set xs) ?R" unfolding decides_def using dom by blast
  ultimately have s: "sorted_wrt ?R (srt cmp xs)" by (rule engine_sort_sorted [OF assms(1)])
  have mem: "m \<in> set (srt cmp xs)" using engine_sort_set [OF assms(1)] assms(2) by simp
  then obtain h rest where hr: "srt cmp xs = h # rest" by (cases "srt cmp xs") auto
  have "h = m"
  proof (rule ccontr)
    assume "h \<noteq> m"
    with mem hr have "m \<in> set rest" by simp
    then have "?R h m" using s hr by auto
    with \<open>h \<noteq> m\<close> show False by simp
  qed
  with hr show ?thesis by simp
qed

lemma compare_documents_below_lt:
  assumes "compareVersions (version r) (version m) < 0 \<or>
           (compareVersions (version r) (version m) = 0 \<and> tv (date r) = Some t \<and> tv (date m) = Some tm \<and> t < tm)"
  shows "js_lt (compare_documents tv m r) (Fin 0) \<and> js_gt (compare_documents tv r m) (Fin 0)"
  using assms
proof
  assume lt: "compareVersions (version r) (version m) < 0"
  then have "compareVersions (version r) (version m) = - 1"
    by (cases "version r" "version m" rule: compareVersions_cases) simp_all
  moreover from this have "compareVersions (version m) (version r) = 1"
    using compareVersions_antisym [of "version m" "version r"] by simp
  ultimately show ?thesis by (simp add: compare_documents_def js_gt_def)
next
  assume eq: "compareVersions (version r) (version m) = 0 \<and> tv (date r) = Some t \<and> tv (date m) = Some tm \<and> t < tm"
  then have eq': "compareVersions (version m) (version r) = 0"
    using compareVersions_antisym [of "version m" "version r"] by simp
  have "js_lt (round_int (t - tm)) (Fin 0)" using eq by (intro round_int_neg) simp
  moreover have "js_lt (Fin 0) (round_int (tm - t))" using eq by (intro round_int_pos) simp
  ultimately show ?thesis
    using eq eq' by (auto simp: compare_documents_def js_gt_def)
qed

lemma getLatest_by_dominant:
  assumes "engine_sort srt" and m: "m \<in> set docs" "documentId m = docId"
    and dom: "\<And>r. r \<in> set docs \<Longrightarrow> documentId r = docId \<Longrightarrow> r \<noteq> m \<Longrightarrow>
       compareVersions (version r) (version m) < 0 \<or>
       (compareVersions (version r) (version m) = 0 \<and>
        (\<exists>t tm. tv (date r) = Some t \<and> tv (date m) = Some tm \<and> t < tm))"
  shows "getLatestDocumentVersion_by srt tv docs docId = Some m"
proof -
  let ?xs = "filter (\<lambda>doc. documentId doc = docId) docs"
  have "\<exists>rest. srt (compare_documents tv) ?xs = m # rest"
  proof (rule engine_sort_hd_dominant [OF assms(1)])
    show "m \<in> set ?xs" using m by simp
    fix y assume "y \<in> set ?xs" "y \<noteq> m"
    then have "compareVersions (version y) (version m) < 0 \<or>
       (compareVersions (version y) (version m) = 0 \<and>
        (\<exists>t tm. tv (date y) = Some t \<and> tv (date m) = Some tm \<and> t < tm))"
      using dom [of y] by simp
    then show "js_lt (compare_documents tv m y) (Fin 0) \<and> js_gt (compare_documents tv y m) (Fin 0)"
      using compare_documents_below_lt [of y m tv] by blast
  qed
  then show ?thesis by (auto simp: getLatest_by_eq)
qed

lemma isLatest_by_iff:
  assumes "getLatestDocumentVersion_by srt tv docs (documentId doc) = Some latest"
  shows "isLatestVersion_by srt tv docs doc \<longleftrightarrow>
     0 < compareVersions (version doc) (version latest) \<or>
     (compareVersions (version doc) (version latest) = 0 \<and>
      (\<exists>t1 t2. tv (date doc) = Some t1 \<and> tv (date latest) = Some t2 \<and> t2 \<le> t1))"
  using assms by (auto simp: isLatestVersion_by_def Let_def js_ge_time)

section \<open>Evaluation of the examples\<close>

lemma digit_strings:
  "all_digits ''0''" "all_digits ''1''" "all_digits ''2''" "all_digits ''10''"
  "digits_val 10 ''0'' = 0" "digits_val 10 ''1'' = 1" "digits_val 10 ''2'' = 2"
  "digits_val 10 ''10'' = 10"
  by (simp_all add: all_digits_def is_digit_def digits_val_def digit_val_def)

lemma Number_small:
  "Number ''0'' = Fin 0" "Number ''1'' = Fin 1" "Number ''2'' = Fin 2" "Number ''10'' = Fin 10"
  using Number_digits [of "''0''"] Number_digits [of "''1''"] Number_digits [of "''2''"]
    Number_digits [of "''10''"]
  by (simp_all add: digit_strings)

lemmas compare_eval = compareVersions_def Let_def compare_from.simps at_index_def js_gt_def Number_small

lemma compareVersions_examples:
  "compareVersions ''1.2.0'' ''1.10.0'' = - 1"
  "compareVersions ''1.0'' ''1.0.0'' = 0"
  "compareVersions ''1.0.0'' ''2.0.0'' = - 1"
  "compareVersions ''2.0.0'' ''1.0.0'' = 1"
  "compareVersions ''1.0.0'' ''1.0'' = 0"
  "compareVersions ''1.0'' ''2.0.0'' = - 1"
  by (simp_all add: compare_eval)

lemma iso_date_examples:
  "iso_date ''2024-01-01'' = Some 1704067200000"
  "iso_date ''2024-02-01'' = Some 1706745600000"
  by (simp_all add: iso_date_def is_digit_def digits_val_def digit_val_def days_in_month_def
      days_from_civil_def Let_def)

lemma big_digit_strings:
  "all_digits ''9007199254740993''" "digits_val 10 ''9007199254740993'' = 9007199254740993"
  "all_digits ''9007199254740992''" "digits_val 10 ''9007199254740992'' = 9007199254740992"
  by (simp_all add: all_digits_def is_digit_def digits_val_def digit_val_def)

lemma Number_big:
  "Number ''9007199254740993'' = Fin 9007199254740992"
  "Number ''9007199254740992'' = Fin 9007199254740992"
  using Number_digits_above [of "''9007199254740993''"] Number_digits_above [of "''9007199254740992''"]
    round_double_2_53 round_double_2_53_1
  by (simp_all add: big_digit_strings)

subsection \<open>The compared values\<close>

lemma segment_eq:
  "segment v k = (if k < length (split_dot v) \<and> Number (split_dot v ! k) \<noteq> NaN
                  then Number (split_dot v ! k) else Fin 0)"
proof (cases "k < length (split_dot v)")
  case True
  then show ?thesis
    by (cases "Number (split_dot v ! k)") (simp_all add: segment_def at_index_def)
next
  case False
  then show ?thesis by (simp add: segment_def at_index_def)
qed

lemma segments_beyond:
  "\<not> k < max (length (split_dot a)) (length (split_dot b)) \<Longrightarrow>
   segment a k = Fin 0 \<and> segment b k = Fin 0"
  by (simp add: segment_beyond)

lemma first_unequal_bounded:
  "(\<exists>k. js_lt (segment a k) (segment b k) \<and> (\<forall>j<k. segment a j = segment b j)) \<longleftrightarrow>
   (\<exists>k<max (length (split_dot a)) (length (split_dot b)).
      js_lt (segment a k) (segment b k) \<and> (\<forall>j<k. segment a j = segment b j))"
  (is "?L \<longleftrightarrow> ?R")
proof
  assume ?L
  then obtain k where k: "js_lt (segment a k) (segment b k)" "\<forall>j<k. segment a j = segment b j"
    by blast
  have "k < max (length (split_dot a)) (length (split_dot b))"
    using k(1) segments_beyond [of k a b] by (cases "k < max (length (split_dot a)) (length (split_dot b))") auto
  with k show ?R by blast
qed blast

lemma all_equal_bounded:
  "(\<forall>k. segment a k = segment b k) \<longleftrightarrow>
   (\<forall>k<max (length (split_dot a)) (length (split_dot b)). segment a k = segment b k)"
  using segments_beyond [of _ a b] by metis

lemma round_double_examples:
  "round_double 10 (Suc 0) = Fin 10" "round_double 16 (Suc 0) = Fin 16"
  using round_double_nat_le [of 10] round_double_nat_le [of 16] by simp_all

lemma Number_forms:
  "Number [] = Fin 0" "Number ''abc'' = NaN" "Number ''1e1'' = Fin 10" "Number ''0x10'' = Fin 16"
  by (simp_all add: Number_def Let_def trim_ws_def ws_units_def non_decimal_def
      unsigned_decimal_def signed_integer_def round_scaled_def all_digits_def is_digit_def
      is_hex_digit_def digits_val_def digit_val_def round_double_examples)

subsection \<open>The example records\<close>

lemma round_int_exact:
  assumes "\<bar>i\<bar> \<le> 2 ^ 53"
  shows "round_int i = Fin (of_int i)"
proof (cases "0 \<le> i")
  case True
  then have "nat i \<le> 2 ^ 53" using assms by (simp add: nat_le_iff)
  then show ?thesis using True round_double_nat_le [of "nat i"] by (simp add: round_int_def)
next
  case False
  then have "nat (- i) \<le> 2 ^ 53" using assms by (simp add: nat_le_iff)
  then show ?thesis using False round_double_nat_le [of "nat (- i)"] by (simp add: round_int_def)
qed

lemmas record_defs = record_A_def record_B_def record_C_def record_D_def record_blank_def

lemma latest_A_B:
  "getLatestDocumentVersion tv [record_A, record_B] ''D1'' = Some record_B"
  by (simp add: getLatestDocumentVersion_def js_sort_def compare_documents_def record_defs
      compareVersions_examples js_gt_def)

lemma latest_A_C_D:
  "getLatestDocumentVersion iso_date [record_A, record_C, record_D] ''D1'' = Some record_D"
  by (simp add: getLatestDocumentVersion_def js_sort_def compare_documents_def record_defs
      compareVersions_examples js_gt_def iso_date_examples round_int_exact)

lemma isLatest_A:
  "\<not> isLatestVersion tv [record_A, record_B] record_A"
proof -
  have "getLatestDocumentVersion tv [record_A, record_B] (documentId record_A) = Some record_B"
    using latest_A_B [of tv] by (simp add: record_defs)
  from isLatest_iff [OF this] show ?thesis
    by (simp add: record_defs compareVersions_examples)
qed

lemma isLatest_B:
  assumes "tv ''2024-02-01'' = Some t"
  shows "isLatestVersion tv [record_A, record_B] record_B"
proof -
  have "getLatestDocumentVersion tv [record_A, record_B] (documentId record_B) = Some record_B"
    using latest_A_B [of tv] by (simp add: record_defs)
  from isLatest_iff [OF this] show ?thesis
    using assms by (simp add: record_defs compareVersions_refl)
qed

subsection \<open>The example records on the two sorts\<close>

lemmas record_defs2 = record_M_def record_R0_def record_R1_def record_R2_def record_R3_def

lemma iso_date_more:
  "iso_date ''2024-03-01'' = Some 1709251200000"
  "iso_date ''bad'' = None"
  by (simp_all add: iso_date_def is_digit_def digits_val_def digit_val_def days_in_month_def
      days_from_civil_def Let_def)

lemmas sort_eval = binary_insertion_sort_def binary_insert_def find_insertion_point.simps
  js_sort_def compare_documents_def js_gt_def Let_def

lemma latest_R_binary_insertion:
  "getLatestDocumentVersion_by binary_insertion_sort iso_date
     [record_R0, record_R1, record_R2, record_R3] ''D3'' = Some record_R3"
  by (simp add: getLatestDocumentVersion_by_def sort_eval record_defs2 compareVersions_refl
      iso_date_examples iso_date_more round_int_exact)

lemma latest_R_insertion:
  "getLatestDocumentVersion_by js_sort iso_date
     [record_R0, record_R1, record_R2, record_R3] ''D3'' = Some record_R1"
  by (simp add: getLatestDocumentVersion_by_def sort_eval record_defs2 compareVersions_refl
      iso_date_examples iso_date_more round_int_exact)

lemma latest_A_M:
  "getLatestDocumentVersion iso_date [record_A, record_M] ''D1'' = Some record_M"
  "getLatestDocumentVersion_by binary_insertion_sort iso_date [record_A, record_M] ''D1'' = Some record_M"
  "getLatestDocumentVersion iso_date [record_M] ''D1'' = Some record_M"
  by (simp_all add: getLatestDocumentVersion_def getLatestDocumentVersion_by_def sort_eval
      record_defs record_defs2 compareVersions_examples)

lemma latest_by_A_C:
  "getLatestDocumentVersion_by binary_insertion_sort iso_date [record_A, record_C] ''D1'' = Some record_C"
  by (simp add: getLatestDocumentVersion_by_def sort_eval record_defs compareVersions_examples
      iso_date_examples round_int_exact)

subsection \<open>The resolution flow\<close>

lemma find_in_set:
  "findDocumentByValidationId docs vid = Some d \<Longrightarrow> d \<in> set docs"
  unfolding findDocumentByValidationId_def find_Some_iff by auto

lemma validateDocument_no_id:
  "queryId this = None \<or> queryId this = Some [] \<Longrightarrow> validateDocument tv this = (Inr NoId, this)"
  by (auto simp: validateDocument_def)

lemma validateDocument_id:
  assumes "queryId this = Some vid" "vid \<noteq> []"
  shows "validateDocument tv this =
     (let found = findDocumentByValidationId (documents this) (Some vid);
          this' = this\<lparr>currentDocument := found\<rparr>
      in case found of
           None \<Rightarrow> (Inr NotFound, this')
         | Some cur \<Rightarrow>
             if isLatestVersion tv (documents this) cur then (Inr (Latest cur), this')
             else (case getLatestDocumentVersion tv (documents this) (documentId cur) of
                     None \<Rightarrow> (Inl TypeError, this')
                   | Some latest \<Rightarrow> (Inr (Outdated cur latest), this')))"
  using assms by (auto simp: validateDocument_def Let_def split: option.splits)

lemma validateDocument_cases:
  assumes "queryId this = Some vid" "vid \<noteq> []"
  shows "case findDocumentByValidationId (documents this) (Some vid) of
           None \<Rightarrow> fst (validateDocument tv this) = Inr NotFound
         | Some cur \<Rightarrow>
             if isLatestVersion tv (documents this) cur
             then fst (validateDocument tv this) = Inr (Latest cur)
             else \<exists>latest. getLatestDocumentVersion tv (documents this) (documentId cur) = Some latest \<and>
                    fst (validateDocument tv this) = Inr (Outdated cur latest)"
proof (cases "findDocumentByValidationId (documents this) (Some vid)")
  case None
  then show ?thesis by (simp add: validateDocument_id [OF assms])
next
  case (Some cur)
  then have "cur \<in> set (documents this)" by (rule find_in_set)
  then have "getLatestDocumentVersion tv (documents this) (documentId cur) \<noteq> None"
    unfolding getLatest_None_iff by blast
  then obtain latest where "getLatestDocumentVersion tv (documents this) (documentId cur) = Some latest"
    by auto
  with Some show ?thesis by (simp add: validateDocument_id [OF assms])
qed

lemma validateDocument_no_error: "fst (validateDocument tv this) \<noteq> Inl TypeError"
proof (cases "queryId this")
  case None
  then show ?thesis by (simp add: validateDocument_no_id)
next
  case (Some vid)
  show ?thesis
  proof (cases "vid = []")
    case True
    with Some show ?thesis by (simp add: validateDocument_no_id)
  next
    case False
    from validateDocument_cases [OF Some False, of tv] show ?thesis
      by (auto split: option.splits if_splits)
  qed
qed

lemma validateDocument_fields:
  "documents (snd (validateDocument tv this)) = documents this"
  "queryId (snd (validateDocument tv this)) = queryId this"
  by (auto simp: validateDocument_def Let_def split: option.splits)

lemma validateDocument_fst_cong:
  assumes "documents this = documents this'" "queryId this = queryId this'"
  shows "fst (validateDocument tv this) = fst (validateDocument tv this')"
  using assms by (auto simp: validateDocument_def Let_def split: option.splits)

lemma find_examples:
  "findDocumentByValidationId [record_A, record_B] (Some ''A'') = Some record_A"
  "findDocumentByValidationId [record_A, record_B] (Some ''B'') = Some record_B"
  "findDocumentByValidationId [record_A, record_B] (Some ''Z'') = None"
  by (simp_all add: findDocumentByValidationId_def record_defs)

lemma validate_examples:
  "fst (validateDocument tv \<lparr>documents = [record_A, record_B], queryId = Some ''A'', currentDocument = c\<rparr>)
     = Inr (Outdated record_A record_B)"
  "tv ''2024-02-01'' = Some t \<Longrightarrow>
   fst (validateDocument tv \<lparr>documents = [record_A, record_B], queryId = Some ''B'', currentDocument = c\<rparr>)
     = Inr (Latest record_B)"
  "fst (validateDocument tv \<lparr>documents = [record_A, record_B], queryId = Some ''Z'', currentDocument = c\<rparr>)
     = Inr NotFound"
  "fst (validateDocument tv \<lparr>documents = [record_A, record_B], queryId = None, currentDocument = c\<rparr>)
     = Inr NoId"
proof -
  have la: "getLatestDocumentVersion tv [record_A, record_B] (documentId record_A) = Some record_B"
    using latest_A_B [of tv] by (simp add: record_defs)
  show "fst (validateDocument tv \<lparr>documents = [record_A, record_B], queryId = Some ''A'', currentDocument = c\<rparr>)
     = Inr (Outdated record_A record_B)"
    by (simp add: validateDocument_def find_examples isLatest_A la)
  show "fst (validateDocument tv \<lparr>documents = [record_A, record_B], queryId = Some ''B'', currentDocument = c\<rparr>)
     = Inr (Latest record_B)" if "tv ''2024-02-01'' = Some t"
    using isLatest_B [of tv t] that by (simp add: validateDocument_def find_examples)
  show "fst (validateDocument tv \<lparr>documents = [record_A, record_B], queryId = Some ''Z'', currentDocument = c\<rparr>)
     = Inr NotFound"
    by (simp add: validateDocument_def find_examples)
  show "fst (validateDocument tv \<lparr>documents = [record_A, record_B], queryId = None, currentDocument = c\<rparr>)
     = Inr NoId"
    by (simp add: validateDocument_def)
qed

section \<open>The claims\<close>

text \<open>
  C1 as it is stated: \<open>compareVersions\<close> parses each segment as an integer. It does not:
  the segments \<open>9007199254740993\<close> and \<open>9007199254740992\<close> are different integers,
  and \<open>Number\<close> maps both to the double \<open>2^53\<close>, so the versions compare equal.
\<close>

theorem compareVersions_integer_counterexample:
  "compareVersions ''9007199254740993'' ''9007199254740992'' = 0 \<and>
   spec_compareVersions ''9007199254740993'' ''9007199254740992'' = 1"
  by (simp add: compareVersions_def Let_def compare_from.simps at_index_def js_gt_def Number_big
      spec_compareVersions_def spec_segment_def spec_pad_def big_digit_strings)

text \<open>
  C1, amended. For all strings \<open>a\<close> and \<open>b\<close>, \<open>compareVersions(a, b)\<close> splits both on
  \<open>.\<close>, converts each segment with \<open>Number\<close>, takes \<open>0\<close> for a missing segment and for
  \<open>NaN\<close>, and compares the values pairwise up to the length of the longer sequence: the
  result is \<open>-1\<close> or \<open>1\<close> by the first unequal pair and \<open>0\<close> when all pairs are equal.
  A segment of decimal digits whose value is at most \<open>2^53\<close> is converted to that
  integer and a greater one is rounded to a double (\<open>9007199254740993\<close> to
  \<open>9007199254740992\<close>); the empty segment is \<open>0\<close>; a segment that is no numeric literal,
  as \<open>abc\<close>, is \<open>NaN\<close>; the other numeric literals are converted too (\<open>1e1\<close> is \<open>10\<close>,
  \<open>0x10\<close> is \<open>16\<close>). \<open>compareVersions("1.2.0", "1.10.0") = -1\<close> and
  \<open>compareVersions("1.0", "1.0.0") = 0\<close>. The function is total: no string raises an error.
\<close>

theorem compareVersions_first_unequal:
  "compareVersions a b \<in> {- 1, 0, 1} \<and>
   (compareVersions a b = - 1 \<longleftrightarrow>
      (\<exists>k<max (length (split_dot a)) (length (split_dot b)).
         js_lt (segment a k) (segment b k) \<and> (\<forall>j<k. segment a j = segment b j))) \<and>
   (compareVersions a b = 1 \<longleftrightarrow>
      (\<exists>k<max (length (split_dot a)) (length (split_dot b)).
         js_lt (segment b k) (segment a k) \<and> (\<forall>j<k. segment a j = segment b j))) \<and>
   (compareVersions a b = 0 \<longleftrightarrow>
      (\<forall>k<max (length (split_dot a)) (length (split_dot b)). segment a k = segment b k)) \<and>
   (\<forall>v k. segment v k =
      (if k < length (split_dot v) \<and> Number (split_dot v ! k) \<noteq> NaN
       then Number (split_dot v ! k) else Fin 0)) \<and>
   (\<forall>s. all_digits s \<and> digits_val 10 s \<le> 2 ^ 53 \<longrightarrow> Number s = Fin (of_nat (digits_val 10 s))) \<and>
   split_dot ''1.10.0'' = [''1'', ''10'', ''0''] \<and>
   Number [] = Fin 0 \<and> Number ''abc'' = NaN \<and>
   Number ''1e1'' = Fin 10 \<and> Number ''0x10'' = Fin 16 \<and>
   Number ''9007199254740993'' = Fin 9007199254740992 \<and>
   compareVersions ''1.2.0'' ''1.10.0'' = - 1 \<and>
   compareVersions ''1.0'' ''1.0.0'' = 0"
proof (intro conjI)
  show "compareVersions a b \<in> {- 1, 0, 1}"
    by (rule compareVersions_range)
  show "compareVersions a b = - 1 \<longleftrightarrow>
      (\<exists>k<max (length (split_dot a)) (length (split_dot b)).
         js_lt (segment a k) (segment b k) \<and> (\<forall>j<k. segment a j = segment b j))"
    unfolding compareVersions_less by (rule first_unequal_bounded)
  have sym: "\<And>k. (\<forall>j<k. segment a j = segment b j) \<longleftrightarrow> (\<forall>j<k. segment b j = segment a j)"
    by metis
  show "compareVersions a b = 1 \<longleftrightarrow>
      (\<exists>k<max (length (split_dot a)) (length (split_dot b)).
         js_lt (segment b k) (segment a k) \<and> (\<forall>j<k. segment a j = segment b j))"
    unfolding compareVersions_greater sym first_unequal_bounded [of b a] by (simp add: max.commute)
  show "compareVersions a b = 0 \<longleftrightarrow>
      (\<forall>k<max (length (split_dot a)) (length (split_dot b)). segment a k = segment b k)"
    unfolding compareVersions_zero by (rule all_equal_bounded)
  show "\<forall>v k. segment v k =
      (if k < length (split_dot v) \<and> Number (split_dot v ! k) \<noteq> NaN
       then Number (split_dot v ! k) else Fin 0)"
    using segment_eq by blast
  show "\<forall>s. all_digits s \<and> digits_val 10 s \<le> 2 ^ 53 \<longrightarrow> Number s = Fin (of_nat (digits_val 10 s))"
    using Number_digits by blast
  show "compareVersions ''1.2.0'' ''1.10.0'' = - 1" "compareVersions ''1.0'' ''1.0.0'' = 0"
    by (simp_all add: compareVersions_examples)
  show "Number [] = Fin 0" "Number ''abc'' = NaN" "Number ''1e1'' = Fin 10"
    "Number ''0x10'' = Fin 16"
    by (simp_all add: Number_forms)
  show "Number ''9007199254740993'' = Fin 9007199254740992"
    by (rule Number_big)
  show "split_dot ''1.10.0'' = [''1'', ''10'', ''0'']"
    by simp
qed

theorem compareVersions_first_unequal_witness:
  "compareVersions ''1.2.0'' ''1.10.0'' = - 1 \<and>
   (1::nat) < max (length (split_dot ''1.2.0'')) (length (split_dot ''1.10.0'')) \<and>
   js_lt (segment ''1.2.0'' 1) (segment ''1.10.0'' 1) \<and>
   segment ''1.2.0'' 0 = segment ''1.10.0'' 0 \<and>
   segment ''1.2.0'' 1 = Fin 2 \<and> segment ''1.10.0'' 1 = Fin 10 \<and>
   all_digits ''10'' \<and> digits_val 10 ''10'' \<le> 2 ^ 53 \<and> Number ''10'' = Fin 10"
proof -
  note t = compareVersions_first_unequal [of "''1.2.0''" "''1.10.0''"]
  have d: "all_digits ''10''" "digits_val 10 ''10'' = 10" "all_digits ''2''" "digits_val 10 ''2'' = 2"
    "all_digits ''1''" "digits_val 10 ''1'' = 1"
    by (simp_all add: digit_strings)
  from t have n: "\<And>s. all_digits s \<Longrightarrow> digits_val 10 s \<le> 2 ^ 53 \<Longrightarrow> Number s = Fin (of_nat (digits_val 10 s))"
    by blast
  have n10: "Number ''10'' = Fin 10" "Number ''2'' = Fin 2" "Number ''1'' = Fin 1"
    using n [of "''10''"] n [of "''2''"] n [of "''1''"] d by simp_all
  from t have s: "\<And>v k. segment v k =
      (if k < length (split_dot v) \<and> Number (split_dot v ! k) \<noteq> NaN
       then Number (split_dot v ! k) else Fin 0)" by blast
  have s1: "segment ''1.2.0'' 1 = Fin 2" "segment ''1.10.0'' 1 = Fin 10"
     "segment ''1.2.0'' 0 = Fin 1" "segment ''1.10.0'' 0 = Fin 1"
    by (simp_all add: s n10)
  from t have "compareVersions ''1.2.0'' ''1.10.0'' = - 1" by blast
  then show ?thesis using s1 d n10 by simp
qed

text \<open>
  C2. On every engine whose sort has the property \<open>engine_sort\<close>, for every record sequence,
  every document id and every date parser, \<open>getLatestDocumentVersion\<close> returns \<open>None\<close>
  exactly when no record has that document id; otherwise it returns a record of the
  sequence with that document id whose version is greater than or equal to the version of
  every record of the lineage under \<open>compareVersions\<close>. The dates are arbitrary: with a date
  that cannot be parsed the engines may return different records, each of the greatest
  version, as V8's sort and the insertion sort do on \<open>record_R0\<close> to \<open>record_R3\<close>.
\<close>

theorem latest_in_lineage:
  assumes "engine_sort srt"
  shows "(getLatestDocumentVersion_by srt tv docs docId = None \<longleftrightarrow>
            (\<forall>d\<in>set docs. documentId d \<noteq> docId)) \<and>
         (\<forall>l. getLatestDocumentVersion_by srt tv docs docId = Some l \<longrightarrow>
            l \<in> set docs \<and> documentId l = docId \<and>
            (\<forall>r\<in>set docs. documentId r = docId \<longrightarrow>
               0 \<le> compareVersions (version l) (version r)))"
  using getLatest_by_None_iff [OF assms, of tv docs docId]
    getLatest_by_Some [OF assms, of tv docs docId] by blast

theorem latest_in_lineage_witness:
  "engine_sort binary_insertion_sort \<and>
   getLatestDocumentVersion_by binary_insertion_sort iso_date
     [record_R0, record_R1, record_R2, record_R3] ''D3'' = Some record_R3 \<and>
   record_R3 \<in> set [record_R0, record_R1, record_R2, record_R3] \<and>
   documentId record_R3 = ''D3'' \<and>
   record_R1 \<in> set [record_R0, record_R1, record_R2, record_R3] \<and>
   documentId record_R1 = ''D3'' \<and>
   0 \<le> compareVersions (version record_R3) (version record_R1) \<and>
   engine_sort js_sort \<and>
   getLatestDocumentVersion iso_date [record_R0, record_R1, record_R2, record_R3] ''D3'' = Some record_R1 \<and>
   0 \<le> compareVersions (version record_R1) (version record_R3) \<and>
   iso_date (date record_R2) = None \<and>
   documentId record_R0 \<noteq> ''D1'' \<and> documentId record_R1 \<noteq> ''D1'' \<and>
   documentId record_R2 \<noteq> ''D1'' \<and> documentId record_R3 \<noteq> ''D1'' \<and>
   getLatestDocumentVersion_by binary_insertion_sort iso_date
     [record_R0, record_R1, record_R2, record_R3] ''D1'' = None"
proof -
  have ids: "documentId record_R0 = ''D3''" "documentId record_R1 = ''D3''"
    "documentId record_R2 = ''D3''" "documentId record_R3 = ''D3''"
    "iso_date (date record_R2) = None"
    by (simp_all add: record_defs2 iso_date_more)
  have l: "getLatestDocumentVersion iso_date [record_R0, record_R1, record_R2, record_R3] ''D3'' = Some record_R1"
    using latest_R_insertion by (simp add: getLatest_by_js_sort)
  from latest_in_lineage [OF engine_sort_binary_insertion_sort, of iso_date
      "[record_R0, record_R1, record_R2, record_R3]" "''D3''"]
    latest_R_binary_insertion ids
  have v8: "0 \<le> compareVersions (version record_R3) (version record_R1)" by simp
  from latest_in_lineage [OF engine_sort_js_sort, of iso_date
      "[record_R0, record_R1, record_R2, record_R3]" "''D3''"]
    latest_R_insertion ids
  have ins: "0 \<le> compareVersions (version record_R1) (version record_R3)" by simp
  from latest_in_lineage [OF engine_sort_binary_insertion_sort, of iso_date
      "[record_R0, record_R1, record_R2, record_R3]" "''D1''"] ids
  have none: "getLatestDocumentVersion_by binary_insertion_sort iso_date
      [record_R0, record_R1, record_R2, record_R3] ''D1'' = None" by simp
  show ?thesis
    using engine_sort_binary_insertion_sort engine_sort_js_sort latest_R_binary_insertion
      l v8 ins none ids by simp
qed

text \<open>
  C3 as it is stated: equal version with equal date yields true. It does not when the date
  cannot be parsed: \<open>record_M\<close> alone in the sequence is the latest of its lineage, its
  version and its date are those of the latest, and \<open>isLatestVersion\<close> is false for it,
  since the two time values are \<open>NaN\<close> and \<open>NaN >= NaN\<close> is false.
\<close>

theorem isLatest_equal_date_counterexample:
  "record_M \<in> set [record_M] \<and>
   getLatestDocumentVersion iso_date [record_M] (documentId record_M) = Some record_M \<and>
   compareVersions (version record_M) (version record_M) = 0 \<and>
   date record_M = ''bad'' \<and> iso_date ''bad'' = None \<and>
   \<not> isLatestVersion iso_date [record_M] record_M"
proof -
  have "iso_date (date record_M) = None" by (simp add: record_defs2 iso_date_more)
  then have "\<not> isLatestVersion iso_date [record_M] record_M" by (rule isLatest_invalid_date)
  moreover have "getLatestDocumentVersion iso_date [record_M] (documentId record_M) = Some record_M"
    using latest_A_M(3) by (simp add: record_defs2)
  ultimately show ?thesis
    by (simp add: compareVersions_refl iso_date_more) (simp add: record_defs2)
qed

text \<open>
  C3, amended. For every record sequence and every record whose lineage is not empty in it,
  there is a latest record of the lineage, and \<open>isLatestVersion\<close> is true if and only if the
  record's version is strictly greater than the latest's under \<open>compareVersions\<close>, or the two
  versions compare equal, both dates can be parsed and the record's time value is greater
  than or equal to the latest's. Equal versions with equal time values give true.
\<close>

theorem isLatest_by_version_then_date:
  assumes "\<exists>d\<in>set docs. documentId d = documentId doc"
  shows "\<exists>latest. getLatestDocumentVersion tv docs (documentId doc) = Some latest \<and>
     (isLatestVersion tv docs doc \<longleftrightarrow>
        0 < compareVersions (version doc) (version latest) \<or>
        (compareVersions (version doc) (version latest) = 0 \<and>
         (\<exists>t1 t2. tv (date doc) = Some t1 \<and> tv (date latest) = Some t2 \<and> t2 \<le> t1))) \<and>
     (\<forall>t. compareVersions (version doc) (version latest) = 0 \<and> tv (date doc) = Some t \<and>
          tv (date latest) = Some t \<longrightarrow> isLatestVersion tv docs doc)"
proof -
  from assms have "getLatestDocumentVersion tv docs (documentId doc) \<noteq> None"
    by (simp add: getLatest_None_iff)
  then obtain latest where l: "getLatestDocumentVersion tv docs (documentId doc) = Some latest"
    by auto
  from isLatest_iff [OF l] l show ?thesis by auto
qed

theorem isLatest_by_version_then_date_witness:
  "record_B \<in> set [record_A, record_B] \<and> documentId record_B = documentId record_B \<and>
   getLatestDocumentVersion iso_date [record_A, record_B] (documentId record_B) = Some record_B \<and>
   compareVersions (version record_B) (version record_B) = 0 \<and>
   iso_date (date record_B) = Some 1706745600000 \<and>
   isLatestVersion iso_date [record_A, record_B] record_B \<and>
   getLatestDocumentVersion iso_date [record_A, record_B] (documentId record_A) = Some record_B \<and>
   \<not> 0 < compareVersions (version record_A) (version record_B) \<and>
   compareVersions (version record_A) (version record_B) \<noteq> 0 \<and>
   \<not> isLatestVersion iso_date [record_A, record_B] record_A"
proof -
  have l: "getLatestDocumentVersion iso_date [record_A, record_B] (documentId record_B) = Some record_B"
    "getLatestDocumentVersion iso_date [record_A, record_B] (documentId record_A) = Some record_B"
    using latest_A_B [of iso_date] by (simp_all add: record_defs)
  have d: "iso_date (date record_B) = Some 1706745600000"
    by (simp add: record_defs iso_date_examples)
  have v: "compareVersions (version record_B) (version record_B) = 0"
    "compareVersions (version record_A) (version record_B) = - 1"
    by (simp_all add: record_defs compareVersions_examples compareVersions_refl)
  have "\<exists>d\<in>set [record_A, record_B]. documentId d = documentId record_B" by simp
  from isLatest_by_version_then_date [OF this, of iso_date] l(1) d v(1)
  have b: "isLatestVersion iso_date [record_A, record_B] record_B" by auto
  have "\<exists>d\<in>set [record_A, record_B]. documentId d = documentId record_A" by simp
  from isLatest_by_version_then_date [OF this, of iso_date] l(2) v(2)
  have a: "\<not> isLatestVersion iso_date [record_A, record_B] record_A" by auto
  show ?thesis using l d v a b by simp
qed

text \<open>
  C4. \<open>validateDocument\<close> is the decision tree of the resolution flow. An absent or empty
  query id gives \<open>NoId\<close> and leaves the validator as it is, whatever the records are.
  Otherwise the lookup by validation id decides: nothing found gives \<open>NotFound\<close>; a record
  for which \<open>isLatestVersion\<close> holds gives \<open>Latest\<close> with that record; any other record
  gives \<open>Outdated\<close> with that record and the latest of its lineage, which exists, so that no
  \<open>TypeError\<close> is thrown. For the two records of the example, the query \<open>A\<close> gives
  \<open>Outdated(A, B)\<close>, the query \<open>B\<close> gives \<open>Latest(B)\<close> (with a date parser that reads the
  ISO date of \<open>B\<close>), the query \<open>Z\<close> gives \<open>NotFound\<close> and an absent query gives \<open>NoId\<close>.
\<close>

theorem validateDocument_decision_tree:
  "(queryId this = None \<or> queryId this = Some [] \<longrightarrow> validateDocument tv this = (Inr NoId, this)) \<and>
   (\<forall>vid. queryId this = Some vid \<and> vid \<noteq> [] \<longrightarrow>
      (case findDocumentByValidationId (documents this) (Some vid) of
         None \<Rightarrow> fst (validateDocument tv this) = Inr NotFound
       | Some cur \<Rightarrow>
           if isLatestVersion tv (documents this) cur
           then fst (validateDocument tv this) = Inr (Latest cur)
           else \<exists>latest. getLatestDocumentVersion tv (documents this) (documentId cur) = Some latest \<and>
                  fst (validateDocument tv this) = Inr (Outdated cur latest))) \<and>
   fst (validateDocument tv this) \<noteq> Inl TypeError \<and>
   getValidationIdFromUrl None = None \<and> getValidationIdFromUrl (Some []) = None \<and>
   fst (validateDocument tv \<lparr>documents = [record_A, record_B], queryId = Some ''A'', currentDocument = None\<rparr>)
     = Inr (Outdated record_A record_B) \<and>
   (\<forall>t. tv ''2024-02-01'' = Some t \<longrightarrow>
      fst (validateDocument tv \<lparr>documents = [record_A, record_B], queryId = Some ''B'', currentDocument = None\<rparr>)
        = Inr (Latest record_B)) \<and>
   fst (validateDocument tv \<lparr>documents = [record_A, record_B], queryId = Some ''Z'', currentDocument = None\<rparr>)
     = Inr NotFound \<and>
   fst (validateDocument tv \<lparr>documents = [record_A, record_B], queryId = None, currentDocument = None\<rparr>)
     = Inr NoId"
  using validateDocument_no_id [of this tv] validateDocument_cases [of this _ tv]
    validateDocument_no_error [of tv this] validate_examples [where tv = tv and c = None]
  by (simp add: getValidationIdFromUrl_def)

theorem validateDocument_decision_tree_witness:
  "queryId \<lparr>documents = [record_A, record_B], queryId = Some ''A'', currentDocument = None\<rparr> = Some ''A'' \<and>
   findDocumentByValidationId [record_A, record_B] (Some ''A'') = Some record_A \<and>
   \<not> isLatestVersion iso_date [record_A, record_B] record_A \<and>
   getLatestDocumentVersion iso_date [record_A, record_B] (documentId record_A) = Some record_B \<and>
   fst (validateDocument iso_date \<lparr>documents = [record_A, record_B], queryId = Some ''A'', currentDocument = None\<rparr>)
     = Inr (Outdated record_A record_B) \<and>
   iso_date ''2024-02-01'' = Some 1706745600000 \<and>
   fst (validateDocument iso_date \<lparr>documents = [record_A, record_B], queryId = Some ''B'', currentDocument = None\<rparr>)
     = Inr (Latest record_B) \<and>
   validateDocument iso_date \<lparr>documents = [record_A, record_B], queryId = Some [], currentDocument = None\<rparr>
     = (Inr NoId, \<lparr>documents = [record_A, record_B], queryId = Some [], currentDocument = None\<rparr>)"
proof -
  let ?s = "\<lambda>q. \<lparr>documents = [record_A, record_B], queryId = q, currentDocument = None\<rparr>"
  note t = validateDocument_decision_tree [of "?s (Some ''A'')" iso_date]
  have f: "findDocumentByValidationId [record_A, record_B] (Some ''A'') = Some record_A"
    "\<not> isLatestVersion iso_date [record_A, record_B] record_A"
    "getLatestDocumentVersion iso_date [record_A, record_B] (documentId record_A) = Some record_B"
    "iso_date ''2024-02-01'' = Some 1706745600000"
  proof -
    show "findDocumentByValidationId [record_A, record_B] (Some ''A'') = Some record_A"
      by (rule find_examples)
    show "\<not> isLatestVersion iso_date [record_A, record_B] record_A" by (rule isLatest_A)
    have "documentId record_A = ''D1''" by (simp add: record_defs)
    then show "getLatestDocumentVersion iso_date [record_A, record_B] (documentId record_A) = Some record_B"
      using latest_A_B [of iso_date] by simp
    show "iso_date ''2024-02-01'' = Some 1706745600000" by (rule iso_date_examples)
  qed
  from t have a: "fst (validateDocument iso_date (?s (Some ''A''))) = Inr (Outdated record_A record_B)"
    by blast
  from t f(4) have b: "fst (validateDocument iso_date (?s (Some ''B''))) = Inr (Latest record_B)"
    by blast
  from validateDocument_decision_tree [of "?s (Some [])" iso_date]
  have c: "validateDocument iso_date (?s (Some [])) = (Inr NoId, ?s (Some []))" by simp
  show ?thesis using f a b c by simp
qed

text \<open>
  C5 as it is stated: in every record sequence that contains two records of a lineage with
  versions that compare equal and different dates, the later of the two is the latest of
  the lineage. It is not when the lineage has a record of a greater version: of
  \<open>record_A\<close>, \<open>record_C\<close> and \<open>record_D\<close> the latest is \<open>record_D\<close>.
\<close>

theorem later_date_wins_counterexample:
  "record_A \<in> set [record_A, record_C, record_D] \<and>
   record_C \<in> set [record_A, record_C, record_D] \<and>
   documentId record_A = ''D1'' \<and> documentId record_C = ''D1'' \<and>
   compareVersions (version record_A) (version record_C) = 0 \<and>
   iso_date (date record_A) = Some 1704067200000 \<and>
   iso_date (date record_C) = Some 1706745600000 \<and>
   getLatestDocumentVersion iso_date [record_A, record_C, record_D] ''D1'' = Some record_D \<and>
   record_D \<noteq> record_C"
proof -
  have "documentId record_A = ''D1''" "documentId record_C = ''D1''"
    "compareVersions (version record_A) (version record_C) = 0"
    "iso_date (date record_A) = Some 1704067200000"
    "iso_date (date record_C) = Some 1706745600000"
    "record_D \<noteq> record_C"
    by (simp_all add: record_defs compareVersions_examples iso_date_examples)
  then show ?thesis using latest_A_C_D by simp
qed

text \<open>
  C5, amended. On every engine whose sort has the property \<open>engine_sort\<close>: when two records
  of a lineage have versions that compare equal and different dates, and every other record
  of the lineage has a lower version, \<open>getLatestDocumentVersion\<close> returns the one of the two
  with the later date, wherever the two stand in the sequence and whatever the dates of the
  other records are.
\<close>

theorem later_date_wins:
  assumes "engine_sort srt"
    and "r1 \<in> set docs" "r2 \<in> set docs"
    and "documentId r1 = docId" "documentId r2 = docId"
    and "compareVersions (version r1) (version r2) = 0"
    and "tv (date r1) = Some t1" "tv (date r2) = Some t2" "t1 < t2"
    and "\<forall>r\<in>set docs. documentId r = docId \<longrightarrow>
           r = r1 \<or> r = r2 \<or> compareVersions (version r) (version r2) < 0"
  shows "getLatestDocumentVersion_by srt tv docs docId = Some r2"
proof (rule getLatest_by_dominant [OF assms(1)])
  show "r2 \<in> set docs" "documentId r2 = docId" by fact+
  fix r assume "r \<in> set docs" "documentId r = docId" "r \<noteq> r2"
  with assms(10) have "r = r1 \<or> compareVersions (version r) (version r2) < 0" by blast
  then show "compareVersions (version r) (version r2) < 0 \<or>
       (compareVersions (version r) (version r2) = 0 \<and>
        (\<exists>t tm. tv (date r) = Some t \<and> tv (date r2) = Some tm \<and> t < tm))"
    using assms(6-9) by auto
qed

theorem later_date_wins_witness:
  "engine_sort binary_insertion_sort \<and> engine_sort js_sort \<and>
   record_A \<in> set [record_C, record_A] \<and> record_C \<in> set [record_C, record_A] \<and>
   documentId record_A = ''D1'' \<and> documentId record_C = ''D1'' \<and>
   compareVersions (version record_A) (version record_C) = 0 \<and>
   iso_date (date record_A) = Some 1704067200000 \<and>
   iso_date (date record_C) = Some 1706745600000 \<and>
   getLatestDocumentVersion_by binary_insertion_sort iso_date [record_C, record_A] ''D1''
     = Some record_C \<and>
   getLatestDocumentVersion_by binary_insertion_sort iso_date [record_A, record_C] ''D1''
     = Some record_C \<and>
   getLatestDocumentVersion iso_date [record_C, record_A] ''D1'' = Some record_C \<and>
   getLatestDocumentVersion iso_date [record_A, record_C] ''D1'' = Some record_C"
proof -
  have f: "documentId record_A = ''D1''" "documentId record_C = ''D1''"
    "compareVersions (version record_A) (version record_C) = 0"
    "iso_date (date record_A) = Some 1704067200000"
    "iso_date (date record_C) = Some 1706745600000"
    by (simp_all add: record_defs compareVersions_examples iso_date_examples)
  have c: "getLatestDocumentVersion_by srt iso_date [record_C, record_A] ''D1'' = Some record_C"
    "getLatestDocumentVersion_by srt iso_date [record_A, record_C] ''D1'' = Some record_C"
    if "engine_sort srt" for srt
    by (rule later_date_wins [OF that, where ?r1.0 = record_A and ?t1.0 = 1704067200000
          and ?t2.0 = 1706745600000]; simp add: f)+
  show ?thesis
    using engine_sort_binary_insertion_sort engine_sort_js_sort
      c [OF engine_sort_binary_insertion_sort] c [OF engine_sort_js_sort] f
    by (simp add: getLatest_by_js_sort)
qed

text \<open>
  C6 as it is stated: \<open>isLatestVersion\<close> is true for the unique maximal record of a lineage.
  It is not when the date of that record cannot be parsed: in the sequence of \<open>record_A\<close>
  and \<open>record_M\<close> the version of \<open>record_M\<close> is the greater, so \<open>record_M\<close> is the unique
  maximum and the latest of the lineage, and \<open>isLatestVersion\<close> is false for it, on the
  insertion sort and on V8's sort.
\<close>

theorem isLatest_unique_maximal_counterexample:
  "record_M \<in> set [record_A, record_M] \<and> record_A \<in> set [record_A, record_M] \<and>
   documentId record_A = documentId record_M \<and>
   compareVersions (version record_A) (version record_M) < 0 \<and>
   iso_date (date record_M) = None \<and>
   getLatestDocumentVersion iso_date [record_A, record_M] (documentId record_M) = Some record_M \<and>
   \<not> isLatestVersion iso_date [record_A, record_M] record_M \<and>
   \<not> isLatestVersion_by binary_insertion_sort iso_date [record_A, record_M] record_M"
proof -
  have f: "documentId record_M = ''D1''" "documentId record_A = ''D1''"
    "compareVersions (version record_A) (version record_M) < 0"
    "iso_date (date record_M) = None"
    by (simp_all add: record_defs record_defs2 compareVersions_examples iso_date_more)
  have l: "getLatestDocumentVersion iso_date [record_A, record_M] (documentId record_M) = Some record_M"
    "getLatestDocumentVersion_by binary_insertion_sort iso_date [record_A, record_M]
       (documentId record_M) = Some record_M"
    using latest_A_M(1,2) f(1) by simp_all
  have "\<not> isLatestVersion iso_date [record_A, record_M] record_M"
    unfolding isLatest_iff [OF l(1)] using f(4) by (simp add: compareVersions_refl)
  moreover have "\<not> isLatestVersion_by binary_insertion_sort iso_date [record_A, record_M] record_M"
    unfolding isLatest_by_iff [OF l(2)] using f(4) by (simp add: compareVersions_refl)
  ultimately show ?thesis using f l by simp
qed

text \<open>
  C6, amended. On every engine whose sort has the property \<open>engine_sort\<close>: when the date of a
  record \<open>m\<close> of the sequence can be parsed and \<open>m\<close> is the unique maximum of its lineage
  under the order "version by \<open>compareVersions\<close>, then date" (every other record of the
  lineage has a lower version, or an equal version and an earlier date), \<open>isLatestVersion\<close>
  is true for \<open>m\<close> and false for every other record of the lineage.
\<close>

theorem isLatest_unique_maximal:
  assumes "engine_sort srt"
    and "m \<in> set docs" "tv (date m) = Some tm"
    and "\<forall>r\<in>set docs. documentId r = documentId m \<and> r \<noteq> m \<longrightarrow>
           compareVersions (version r) (version m) < 0 \<or>
           (compareVersions (version r) (version m) = 0 \<and> (\<exists>t. tv (date r) = Some t \<and> t < tm))"
  shows "isLatestVersion_by srt tv docs m \<and>
         (\<forall>r\<in>set docs. documentId r = documentId m \<and> r \<noteq> m \<longrightarrow>
            \<not> isLatestVersion_by srt tv docs r)"
proof -
  have l: "getLatestDocumentVersion_by srt tv docs (documentId m) = Some m"
  proof (rule getLatest_by_dominant [OF assms(1)])
    show "m \<in> set docs" "documentId m = documentId m" using assms(2) by simp_all
    fix r assume "r \<in> set docs" "documentId r = documentId m" "r \<noteq> m"
    with assms(3,4) show "compareVersions (version r) (version m) < 0 \<or>
       (compareVersions (version r) (version m) = 0 \<and>
        (\<exists>t tm. tv (date r) = Some t \<and> tv (date m) = Some tm \<and> t < tm))"
      by auto
  qed
  have "isLatestVersion_by srt tv docs m"
    unfolding isLatest_by_iff [OF l] using assms(3) by (simp add: compareVersions_refl)
  moreover have "\<not> isLatestVersion_by srt tv docs r"
    if r: "r \<in> set docs" "documentId r = documentId m" "r \<noteq> m" for r
  proof -
    have lr: "getLatestDocumentVersion_by srt tv docs (documentId r) = Some m"
      using l r(2) by simp
    from assms(3,4) r show ?thesis unfolding isLatest_by_iff [OF lr] by auto
  qed
  ultimately show ?thesis by blast
qed

theorem isLatest_unique_maximal_witness:
  "engine_sort binary_insertion_sort \<and> engine_sort js_sort \<and>
   record_B \<in> set [record_A, record_B] \<and>
   iso_date (date record_B) = Some 1706745600000 \<and>
   record_A \<in> set [record_A, record_B] \<and> documentId record_A = documentId record_B \<and>
   record_A \<noteq> record_B \<and>
   compareVersions (version record_A) (version record_B) < 0 \<and>
   isLatestVersion_by binary_insertion_sort iso_date [record_A, record_B] record_B \<and>
   \<not> isLatestVersion_by binary_insertion_sort iso_date [record_A, record_B] record_A \<and>
   isLatestVersion iso_date [record_A, record_B] record_B \<and>
   \<not> isLatestVersion iso_date [record_A, record_B] record_A"
proof -
  have f: "iso_date (date record_B) = Some 1706745600000"
    "documentId record_A = documentId record_B" "record_A \<noteq> record_B"
    "compareVersions (version record_A) (version record_B) < 0"
    by (simp_all add: record_defs iso_date_examples compareVersions_examples)
  have "isLatestVersion_by srt iso_date [record_A, record_B] record_B \<and>
     (\<forall>r\<in>set [record_A, record_B]. documentId r = documentId record_B \<and> r \<noteq> record_B \<longrightarrow>
        \<not> isLatestVersion_by srt iso_date [record_A, record_B] r)"
    if "engine_sort srt" for srt
    by (rule isLatest_unique_maximal [OF that, where tm = 1706745600000]) (use f in auto)
  from this [OF engine_sort_binary_insertion_sort] this [OF engine_sort_js_sort]
  show ?thesis
    using engine_sort_binary_insertion_sort engine_sort_js_sort f
    by (simp add: isLatest_by_js_sort)
qed

text \<open>
  C7 as it is stated: \<open>findDocumentByValidationId\<close> returns \<open>None\<close> whenever the id is
  empty. It does not: the scan has no guard, and a record whose validation id is the empty
  string is found by the empty id.
\<close>

theorem findDocument_empty_id_counterexample:
  "findDocumentByValidationId [record_blank] (Some []) = Some record_blank"
  by (simp add: findDocumentByValidationId_def record_defs)

text \<open>
  C7, amended. \<open>findDocumentByValidationId\<close> scans the records in order and returns the first
  one whose validation id equals the given id; it returns \<open>None\<close> exactly when no record
  matches, which is always so for the id \<open>null\<close>; for the empty id it returns the first
  record whose validation id is empty, if there is one.
\<close>

theorem findDocument_first_match:
  "(findDocumentByValidationId docs vid = None \<longleftrightarrow> (\<forall>d\<in>set docs. Some (validationId d) \<noteq> vid)) \<and>
   (\<forall>d. findDocumentByValidationId docs vid = Some d \<longleftrightarrow>
      (\<exists>i<length docs. docs ! i = d \<and> Some (validationId d) = vid \<and>
         (\<forall>j<i. Some (validationId (docs ! j)) \<noteq> vid))) \<and>
   findDocumentByValidationId docs None = None"
proof (intro conjI allI)
  show "findDocumentByValidationId docs vid = None \<longleftrightarrow> (\<forall>d\<in>set docs. Some (validationId d) \<noteq> vid)"
    by (auto simp: findDocumentByValidationId_def find_None_iff)
  show "findDocumentByValidationId docs None = None"
    by (simp add: findDocumentByValidationId_def find_None_iff)
  fix d
  show "findDocumentByValidationId docs vid = Some d \<longleftrightarrow>
      (\<exists>i<length docs. docs ! i = d \<and> Some (validationId d) = vid \<and>
         (\<forall>j<i. Some (validationId (docs ! j)) \<noteq> vid))"
    unfolding findDocumentByValidationId_def find_Some_iff by auto
qed

theorem findDocument_first_match_witness:
  "(1::nat) < length [record_A, record_B, record_B\<lparr>version := ''3''\<rparr>] \<and>
   [record_A, record_B, record_B\<lparr>version := ''3''\<rparr>] ! 1 = record_B \<and>
   Some (validationId record_B) = Some ''B'' \<and>
   Some (validationId ([record_A, record_B, record_B\<lparr>version := ''3''\<rparr>] ! 0)) \<noteq> Some ''B'' \<and>
   findDocumentByValidationId [record_A, record_B, record_B\<lparr>version := ''3''\<rparr>] (Some ''B'') = Some record_B \<and>
   Some (validationId record_A) \<noteq> Some ''Z'' \<and> Some (validationId record_B) \<noteq> Some ''Z'' \<and>
   findDocumentByValidationId [record_A, record_B] (Some ''Z'') = None \<and>
   findDocumentByValidationId [record_A, record_B] None = None"
proof -
  let ?docs = "[record_A, record_B, record_B\<lparr>version := ''3''\<rparr>]"
  have f: "?docs ! 1 = record_B" "Some (validationId record_B) = Some ''B''"
    "Some (validationId (?docs ! 0)) \<noteq> Some ''B''"
    "Some (validationId record_A) \<noteq> Some ''Z''" "Some (validationId record_B) \<noteq> Some ''Z''"
    by (simp_all add: record_defs)
  have "\<exists>i<length ?docs. ?docs ! i = record_B \<and> Some (validationId record_B) = Some ''B'' \<and>
         (\<forall>j<i. Some (validationId (?docs ! j)) \<noteq> Some ''B'')"
    by (rule exI [of _ 1]) (use f in simp)
  with findDocument_first_match [of ?docs "Some ''B''"]
  have 1: "findDocumentByValidationId ?docs (Some ''B'') = Some record_B" by blast
  from findDocument_first_match [of "[record_A, record_B]" "Some ''Z''"] f
  have 2: "findDocumentByValidationId [record_A, record_B] (Some ''Z'') = None" by simp
  from findDocument_first_match [of "[record_A, record_B]" None]
  have 3: "findDocumentByValidationId [record_A, record_B] None = None" by blast
  show ?thesis using f 1 2 3 by simp
qed

text \<open>
  C8. For a record that is a member of the sequence, the latest of its lineage is never
  \<open>None\<close>, so the \<open>None\<close> branch of \<open>isLatestVersion\<close> is not reached; when the branch is
  reached (the record's lineage is empty in the sequence), \<open>isLatestVersion\<close> is false.
\<close>

theorem isLatest_None_branch:
  "(doc \<in> set docs \<longrightarrow> getLatestDocumentVersion tv docs (documentId doc) \<noteq> None) \<and>
   (getLatestDocumentVersion tv docs (documentId doc) = None \<longrightarrow> \<not> isLatestVersion tv docs doc)"
proof (intro conjI impI)
  assume "doc \<in> set docs"
  then show "getLatestDocumentVersion tv docs (documentId doc) \<noteq> None"
    unfolding getLatest_None_iff by blast
next
  assume "getLatestDocumentVersion tv docs (documentId doc) = None"
  then show "\<not> isLatestVersion tv docs doc"
    by (simp add: isLatestVersion_def)
qed

theorem isLatest_None_branch_witness:
  "record_A \<in> set [record_A, record_B] \<and>
   getLatestDocumentVersion iso_date [record_A, record_B] (documentId record_A) \<noteq> None \<and>
   getLatestDocumentVersion iso_date [record_A, record_B] (documentId record_blank) = None \<and>
   \<not> isLatestVersion iso_date [record_A, record_B] record_blank"
proof -
  have n: "getLatestDocumentVersion iso_date [record_A, record_B] (documentId record_blank) = None"
    by (simp add: getLatest_None_iff record_defs)
  have "record_A \<in> set [record_A, record_B]" by simp
  with isLatest_None_branch [of record_A "[record_A, record_B]" iso_date]
  have "getLatestDocumentVersion iso_date [record_A, record_B] (documentId record_A) \<noteq> None"
    by blast
  moreover from isLatest_None_branch [of record_blank "[record_A, record_B]" iso_date] n
  have "\<not> isLatestVersion iso_date [record_A, record_B] record_blank" by blast
  ultimately show ?thesis using n by simp
qed

text \<open>
  C9. Resolution is deterministic: two validators with the same records and the same query
  id display the same terminal state, whatever record they held before;
  \<open>validateDocument\<close> changes neither the records nor the query id, and running it again on
  the validator it returns displays the same state. With the arrays in a store,
  \<open>getLatestDocumentVersion\<close> returns the same record and sorts only the array that \<open>filter\<close>
  allocated: every array that was in the store, \<open>this.documents\<close> among them, is unchanged.
\<close>

theorem validateDocument_deterministic:
  "(documents this = documents this' \<and> queryId this = queryId this' \<longrightarrow>
      fst (validateDocument tv this) = fst (validateDocument tv this')) \<and>
   documents (snd (validateDocument tv this)) = documents this \<and>
   queryId (snd (validateDocument tv this)) = queryId this \<and>
   fst (validateDocument tv (snd (validateDocument tv this))) = fst (validateDocument tv this) \<and>
   (a < length h \<longrightarrow>
      fst (getLatestDocumentVersion_heap tv a docId h) = getLatestDocumentVersion tv (h ! a) docId \<and>
      (\<forall>i<length h. snd (getLatestDocumentVersion_heap tv a docId h) ! i = h ! i))"
  using validateDocument_fst_cong [of this this' tv]
    validateDocument_fst_cong [of "snd (validateDocument tv this)" this tv]
    validateDocument_fields [of tv this] getLatest_heap [of a h tv docId]
  by simp

theorem validateDocument_deterministic_witness:
  "documents \<lparr>documents = [record_A, record_B], queryId = Some ''A'', currentDocument = None\<rparr>
     = documents \<lparr>documents = [record_A, record_B], queryId = Some ''A'', currentDocument = Some record_B\<rparr> \<and>
   queryId \<lparr>documents = [record_A, record_B], queryId = Some ''A'', currentDocument = None\<rparr>
     = queryId \<lparr>documents = [record_A, record_B], queryId = Some ''A'', currentDocument = Some record_B\<rparr> \<and>
   fst (validateDocument iso_date \<lparr>documents = [record_A, record_B], queryId = Some ''A'', currentDocument = None\<rparr>)
     = fst (validateDocument iso_date
         \<lparr>documents = [record_A, record_B], queryId = Some ''A'', currentDocument = Some record_B\<rparr>) \<and>
   snd (validateDocument iso_date \<lparr>documents = [record_A, record_B], queryId = Some ''A'', currentDocument = None\<rparr>)
     = \<lparr>documents = [record_A, record_B], queryId = Some ''A'', currentDocument = Some record_A\<rparr> \<and>
   (0::nat) < length [[record_A, record_B]] \<and>
   fst (getLatestDocumentVersion_heap iso_date 0 ''D1'' [[record_A, record_B]]) = Some record_B \<and>
   snd (getLatestDocumentVersion_heap iso_date 0 ''D1'' [[record_A, record_B]]) ! 0 = [record_A, record_B]"
proof -
  let ?s = "\<lparr>documents = [record_A, record_B], queryId = Some ''A'', currentDocument = None\<rparr>"
  let ?s' = "\<lparr>documents = [record_A, record_B], queryId = Some ''A'', currentDocument = Some record_B\<rparr>"
  have "documents ?s = documents ?s' \<and> queryId ?s = queryId ?s'" by simp
  with validateDocument_deterministic [of ?s ?s' iso_date]
  have 1: "fst (validateDocument iso_date ?s) = fst (validateDocument iso_date ?s')" by blast
  have "(0::nat) < length [[record_A, record_B]]" by simp
  with validateDocument_deterministic [of ?s ?s' iso_date 0 "[[record_A, record_B]]" "''D1''"]
  have 3: "fst (getLatestDocumentVersion_heap iso_date 0 ''D1'' [[record_A, record_B]]) = Some record_B"
    "snd (getLatestDocumentVersion_heap iso_date 0 ''D1'' [[record_A, record_B]]) ! 0 = [record_A, record_B]"
    using latest_A_B [of iso_date] by simp_all
  have la: "getLatestDocumentVersion iso_date [record_A, record_B] (documentId record_A) = Some record_B"
    using latest_A_B [of iso_date] by (simp add: record_defs)
  have 2: "snd (validateDocument iso_date ?s) =
      \<lparr>documents = [record_A, record_B], queryId = Some ''A'', currentDocument = Some record_A\<rparr>"
    by (simp add: validateDocument_def find_examples isLatest_A la)
  show ?thesis using 1 2 3 by simp
qed

text \<open>
  C10. \<open>compareVersions\<close> is antisymmetric: for all strings \<open>a\<close> and \<open>b\<close>,
  \<open>compareVersions(a, b) = -compareVersions(b, a)\<close>, and \<open>compareVersions(a, a) = 0\<close>.
\<close>

theorem compareVersions_antisymmetric:
  "compareVersions a b = - compareVersions b a \<and> compareVersions a a = 0"
  using compareVersions_antisym [of a b] compareVersions_refl [of a] by simp

end
